theory Spec2Isabelle
  imports Main "HOL-Library.AList"
begin

section \<open>Python string operations used by the crawler\<close>

text \<open>
  Strings are byte lists. \<open>split_on c s\<close> is \<^verbatim>\<open>s.split(c)\<close> for a one-character
  separator (the empty string splits into one empty piece), \<open>strip_chr c s\<close> is
  \<^verbatim>\<open>s.strip(c)\<close>.
\<close>

fun split_on :: "char \<Rightarrow> string \<Rightarrow> string list" where
  "split_on c [] = [[]]"
| "split_on c (x # xs) =
     (if x = c then [] # split_on c xs
      else (case split_on c xs of
              [] \<Rightarrow> [[x]]
            | w # ws \<Rightarrow> (x # w) # ws))"

definition strip_chr :: "char \<Rightarrow> string \<Rightarrow> string" where
  "strip_chr c s = rev (dropWhile (\<lambda>x. x = c) (rev (dropWhile (\<lambda>x. x = c) s)))"

text \<open>Decimal output of integers: \<^verbatim>\<open>"{}".format(i)\<close> and \<^verbatim>\<open>"{:0wd}".format(i)\<close>.\<close>

fun digits10 :: "nat \<Rightarrow> string" where
  "digits10 n =
     (if n < 10 then [''0123456789'' ! n]
      else digits10 (n div 10) @ [''0123456789'' ! (n mod 10)])"

declare digits10.simps [simp del]

definition str_int :: "int \<Rightarrow> string" where
  "str_int i = (if i < 0 then CHR ''-'' # digits10 (nat (- i)) else digits10 (nat i))"

definition format_0d :: "nat \<Rightarrow> int \<Rightarrow> string" where
  "format_0d w i =
     (let ds = digits10 (nat \<bar>i\<bar>);
          sign = (if i < 0 then ''-'' else [])
      in sign @ replicate (w - length sign - length ds) CHR ''0'' @ ds)"

section \<open>URL parsing and validation\<close>

text \<open>
  \<open>urlparse\<close> stands for the standard library's \<^verbatim>\<open>urllib.parse.urlparse\<close>, for the
  three components the crawler reads. It follows the library's steps: an optional
  scheme up to the first colon, a network location after \<^verbatim>\<open>//\<close> up to the next
  \<^verbatim>\<open>/\<close>, \<^verbatim>\<open>?\<close> or \<^verbatim>\<open>#\<close>, then the path with fragment, query and parameters cut off.
  The library's check of square brackets in the network location, which raises
  \<^verbatim>\<open>ValueError\<close>, is left out: a network location with a bracket is not the source
  domain, so the constructor raises \<^verbatim>\<open>ValueError\<close> for such a URL here as there.
\<close>

record parsed_url =
  scheme :: string
  netloc :: string
  path :: string

definition ascii_upper :: string where
  "ascii_upper = ''ABCDEFGHIJKLMNOPQRSTUVWXYZ''"

definition ascii_lower :: string where
  "ascii_lower = ''abcdefghijklmnopqrstuvwxyz''"

definition scheme_chars :: string where
  "scheme_chars = ascii_lower @ ascii_upper @ ''0123456789+-.''"

definition lower_chr :: "char \<Rightarrow> char" where
  "lower_chr c = (case map_of (zip ascii_upper ascii_lower) c of None \<Rightarrow> c | Some d \<Rightarrow> d)"

definition uses_params :: "string list" where
  "uses_params = ['''', ''ftp'', ''hdl'', ''prospero'', ''http'', ''imap'', ''https'',
     ''shttp'', ''rtsp'', ''rtspu'', ''sip'', ''sips'', ''mms'', ''sftp'', ''tel'']"

definition splitparams :: "string \<Rightarrow> string" where
  "splitparams url =
     (let r = rev url;
          last_seg = rev (takeWhile (\<lambda>c. c \<noteq> CHR ''/'') r);
          front = rev (dropWhile (\<lambda>c. c \<noteq> CHR ''/'') r)
      in front @ takeWhile (\<lambda>c. c \<noteq> CHR '';'') last_seg)"

definition urlparse :: "string \<Rightarrow> parsed_url" where
  "urlparse url =
     (let pre = takeWhile (\<lambda>c. c \<noteq> CHR '':'') url;
          has_scheme = (pre \<noteq> [] \<and> length pre < length url
                          \<and> hd pre \<in> set (ascii_lower @ ascii_upper)
                          \<and> list_all (\<lambda>c. c \<in> set scheme_chars) pre);
          sch = (if has_scheme then map lower_chr pre else []);
          url1 = (if has_scheme then drop (Suc (length pre)) url else url);
          has_netloc = (take 2 url1 = ''//'');
          loc = (if has_netloc then takeWhile (\<lambda>c. c \<notin> set ''/?#'') (drop 2 url1) else []);
          url2 = (if has_netloc then dropWhile (\<lambda>c. c \<notin> set ''/?#'') (drop 2 url1) else url1);
          url3 = takeWhile (\<lambda>c. c \<noteq> CHR ''#'') url2;
          url4 = takeWhile (\<lambda>c. c \<noteq> CHR ''?'') url3;
          pth = (if sch \<in> set uses_params then splitparams url4 else url4)
      in \<lparr>scheme = sch, netloc = loc, path = pth\<rparr>)"

definition base_address :: string where
  "base_address = ''http://www.mangareader.net/''"

text \<open>
  \<open>validate_url\<close>, with the source's three tests in the source's order. The log calls
  are left out: they change nothing the crawler reads.
\<close>

definition validate_url :: "string \<Rightarrow> bool" where
  "validate_url url =
     (let parsed = urlparse url
      in if netloc parsed \<noteq> netloc (urlparse base_address) then False
         else if path parsed = [] then False
         else if length (split_on CHR ''/'' (strip_chr CHR ''/'' (drop 1 (path parsed)))) > 1
              then False
         else True)"

section \<open>The process: clock, network log, working directory, file system\<close>

type_synonym bytes = string
type_synonym fpath = "string list"
type_synonym chapter_index = "(int \<times> string \<times> int) list"

datatype exn = ValueError | TypeError | IndexError | OSError | UnpicklingError

text \<open>
  A file holds raw bytes or a pickled chapter index (\<^verbatim>\<open>pickle.load\<close> of what
  \<^verbatim>\<open>pickle.dump\<close> wrote gives the dictionary back). The chapter index is a Python
  dictionary: an association list in insertion order, updated with \<open>AList.update\<close>,
  which keeps the position of a key that is already there and appends a new one.
\<close>

datatype node = Dir | File bytes | PickleFile chapter_index

text \<open>
  A request of the log records its URL, the next allowed request time in force when the
  fetcher began to wait (\<open>not_before\<close>), the clock readings when the opener was called
  and when it came back, and whether a response object came back.
\<close>

record request =
  req_url :: string
  not_before :: int
  started :: int
  finished :: int
  answered :: bool

record world =
  clock :: int
  requests :: "request list"
  cwd :: fpath
  fs :: "fpath \<Rightarrow> node option"

text \<open>
  Paths are POSIX paths: components separated by \<^verbatim>\<open>/\<close>, absolute when they start with
  it. Every component but the last has to lead to an existing directory; the empty path
  names nothing.
\<close>

definition is_abs :: "string \<Rightarrow> bool" where
  "is_abs p = (take 1 p = ''/'')"

definition step_path :: "fpath \<Rightarrow> string \<Rightarrow> fpath" where
  "step_path d c =
     (if c = [] \<or> c = ''.'' then d else if c = ''..'' then butlast d else d @ [c])"

fun walk :: "(fpath \<Rightarrow> node option) \<Rightarrow> fpath \<Rightarrow> string list \<Rightarrow> fpath option" where
  "walk f d [] = Some d"
| "walk f d (c # cs) =
     (let d' = step_path d c in if f d' = Some Dir then walk f d' cs else None)"

definition resolve :: "'a world_scheme \<Rightarrow> string \<Rightarrow> fpath option" where
  "resolve w p =
     (if p = [] then None
      else (let comps = split_on CHR ''/'' p
            in case walk (fs w) (if is_abs p then [] else cwd w) (butlast comps) of
                 None \<Rightarrow> None
               | Some d \<Rightarrow> Some (step_path d (last comps))))"

definition path_exists :: "'a world_scheme \<Rightarrow> string \<Rightarrow> bool" where
  "path_exists w p = (case resolve w p of None \<Rightarrow> False | Some q \<Rightarrow> fs w q \<noteq> None)"

definition path_isdir :: "'a world_scheme \<Rightarrow> string \<Rightarrow> bool" where
  "path_isdir w p = (case resolve w p of None \<Rightarrow> False | Some q \<Rightarrow> fs w q = Some Dir)"

definition mkdir :: "'a world_scheme \<Rightarrow> string \<Rightarrow> exn + 'a world_scheme" where
  "mkdir w p =
     (case resolve w p of
        None \<Rightarrow> Inl OSError
      | Some q \<Rightarrow> if fs w q \<noteq> None then Inl OSError else Inr (w\<lparr>fs := (fs w)(q \<mapsto> Dir)\<rparr>))"

definition chdir :: "'a world_scheme \<Rightarrow> string \<Rightarrow> exn + 'a world_scheme" where
  "chdir w p =
     (case resolve w p of
        None \<Rightarrow> Inl OSError
      | Some q \<Rightarrow> if fs w q = Some Dir then Inr (w\<lparr>cwd := q\<rparr>) else Inl OSError)"

definition write_file :: "'a world_scheme \<Rightarrow> string \<Rightarrow> node \<Rightarrow> exn + 'a world_scheme" where
  "write_file w p n =
     (case resolve w p of
        None \<Rightarrow> Inl OSError
      | Some q \<Rightarrow> if fs w q = Some Dir then Inl OSError else Inr (w\<lparr>fs := (fs w)(q \<mapsto> n)\<rparr>))"

definition load_pickle :: "'a world_scheme \<Rightarrow> string \<Rightarrow> exn + chapter_index" where
  "load_pickle w p =
     (case resolve w p of
        None \<Rightarrow> Inl OSError
      | Some q \<Rightarrow> (case fs w q of
                     Some (PickleFile d) \<Rightarrow> Inr d
                   | Some (File b) \<Rightarrow> Inl UnpicklingError
                   | _ \<Rightarrow> Inl OSError))"

section \<open>What the crawler is given from outside\<close>

text \<open>
  The network and the HTML parser are parameters. \<open>transport e k u\<close> is what the
  \<open>k\<close>-th request of the process does when it asks for \<open>u\<close>: how long it takes and whether
  a response object comes back (\<open>Response code body\<close>) or the opener raises (an HTTP
  error status, a network error, a timeout). The three selectors are the three
  BeautifulSoup queries: the \<^verbatim>\<open>href\<close>s of \<^verbatim>\<open>#chapterlist a\<close>, the page count read from
  \<^verbatim>\<open>div#selectpage\<close> (\<open>None\<close> when the element is missing, \<open>Inl\<close> when \<^verbatim>\<open>int\<close> of its
  last word raises), and the \<^verbatim>\<open>src\<close> of \<^verbatim>\<open>img#img\<close>. \<open>urljoin\<close> is the library's
  \<^verbatim>\<open>urllib.parse.urljoin\<close>, which gives the joined URL or raises (\<^verbatim>\<open>ValueError\<close> on a
  reference such as \<^verbatim>\<open>//[\<close>). \<open>poll_gap\<close> is how far the clock moves, beyond one tick,
  between two readings of the busy-wait loop.
\<close>

datatype outcome = Response int bytes | Raises

record env =
  transport :: "nat \<Rightarrow> string \<Rightarrow> nat \<times> outcome"
  poll_gap :: nat
  select_chapterlist :: "bytes \<Rightarrow> string option list"
  select_selectpage :: "bytes \<Rightarrow> (exn + int) option"
  select_img :: "bytes \<Rightarrow> string option option"
  urljoin :: "string \<Rightarrow> string option \<Rightarrow> exn + string"

section \<open>The MangaReader object\<close>

text \<open>
  The object's fields, without their leading underscore, on top of the process state
  the methods act on. Times are clock ticks. The methods' parameter \<^verbatim>\<open>retry_count\<close> is
  written \<open>retries\<close>, \<open>retry_count\<close> being the field; the constructor's other arguments
  carry the suffix \<open>_arg\<close>. A method returns its result, or the exception that leaves
  it, together with the state it leaves behind.
\<close>

record st = world +
  manga_url :: string
  target_dir :: string
  manga_name :: string
  time_out :: int
  retry_count :: int
  available_chapters :: chapter_index
  current_dir :: fpath
  total_req_count :: nat
  total_bytes :: nat
  wait_time :: int
  retry_after :: int
  next_request_time :: int

subsection \<open>Construction\<close>

fun make_folders :: "string list \<Rightarrow> world \<Rightarrow> exn + world" where
  "make_folders [] w = Inr w"
| "make_folders (folder # rest) w =
     (case (if \<not> path_isdir w folder then mkdir w folder else Inr w) of
        Inl x \<Rightarrow> Inl x
      | Inr w1 \<Rightarrow> (case chdir w1 folder of
                     Inl x \<Rightarrow> Inl x
                   | Inr w2 \<Rightarrow> make_folders rest w2))"

text \<open>On a POSIX system \<^verbatim>\<open>os.path.splitdrive\<close> gives the empty drive.\<close>

definition make_dir_tree :: "string \<Rightarrow> world \<Rightarrow> exn + world" where
  "make_dir_tree dir_path w =
     (let path_drive = [];
          r = (if is_abs dir_path
               then (if \<not> path_exists w path_drive then Inr w
                     else chdir w (path_drive @ ''/''))
               else Inr w)
      in case r of
           Inl x \<Rightarrow> Inl x
         | Inr w1 \<Rightarrow> make_folders (split_on CHR ''/'' dir_path) w1)"

definition init ::
  "string \<Rightarrow> string \<Rightarrow> int \<Rightarrow> int \<Rightarrow> int \<Rightarrow> int \<Rightarrow> world \<Rightarrow> exn + st" where
  "init url_arg dir_arg wait_arg time_out_arg retries retry_after_arg w =
     (let url = strip_chr CHR ''/'' url_arg
      in case make_dir_tree dir_arg w of
           Inl x \<Rightarrow> Inl x
         | Inr w1 \<Rightarrow>
             (case chdir w1 dir_arg of
                Inl x \<Rightarrow> Inl x
              | Inr w2 \<Rightarrow>
                  if \<not> validate_url url then Inl ValueError
                  else (let wt = (if wait_arg > 0 then wait_arg else 5)
                        in Inr \<lparr>clock = clock w2, requests = requests w2, cwd = cwd w2,
                                fs = fs w2,
                                manga_url = url,
                                target_dir = dir_arg,
                                manga_name = strip_chr CHR ''/'' (path (urlparse url)),
                                time_out = time_out_arg,
                                retry_count = (if retries > 0 then retries else 3),
                                available_chapters = [],
                                current_dir = cwd w2,
                                total_req_count = 0,
                                total_bytes = 0,
                                wait_time = wt,
                                retry_after =
                                  (if retry_after_arg > 0 then retry_after_arg else 10),
                                next_request_time = clock w2 + wt\<rparr>)))"

subsection \<open>Fetching a page\<close>

text \<open>
  The busy-wait loop \<^verbatim>\<open>while time.time() < self._next_request_time: pass\<close>: every
  reading of the clock comes at least one tick after the one before.
\<close>

function busy_wait :: "nat \<Rightarrow> int \<Rightarrow> int \<Rightarrow> int" where
  "busy_wait gap limit t = (if t < limit then busy_wait gap limit (t + 1 + int gap) else t)"
  by pat_completeness auto
termination
  by (relation "measure (\<lambda>(gap, limit, t). nat (limit - t))") auto

declare busy_wait.simps [simp del]

text \<open>
  The \<^verbatim>\<open>try\<close> block of \<open>get_page_source\<close>: wait, open the URL, read the body, and on
  a response count it and move the next allowed time. A missing URL (\<open>None\<close>) makes the
  opener raise before anything is sent. Each \<^verbatim>\<open>except\<close> clause only logs.
\<close>

definition try_request :: "env \<Rightarrow> string option \<Rightarrow> st \<Rightarrow> bool \<times> bytes option \<times> st" where
  "try_request e url s =
     (let t0 = busy_wait (poll_gap e) (next_request_time s) (clock s)
      in case url of
           None \<Rightarrow> (False, None, s\<lparr>clock := t0\<rparr>)
         | Some u \<Rightarrow>
             (let (dur, out) = transport e (length (requests s)) u;
                  t1 = t0 + int dur;
                  s1 = s\<lparr>clock := t1,
                         requests := requests s @
                           [\<lparr>req_url = u, not_before = next_request_time s,
                             started = t0, finished = t1,
                             answered = (out \<noteq> Raises)\<rparr>]\<rparr>
              in case out of
                   Raises \<Rightarrow> (False, None, s1)
                 | Response code body \<Rightarrow>
                     (code = 200, Some body,
                      s1\<lparr>total_bytes :=
                            (if code = 200 then total_bytes s1 + length body
                             else total_bytes s1),
                          total_req_count := total_req_count s1 + 1,
                          next_request_time := t1 + wait_time s1\<rparr>)))"

text \<open>
  The \<^verbatim>\<open>finally\<close> clause retries by calling the function again, after
  \<^verbatim>\<open>time.sleep(self._retry_after)\<close>, which raises \<^verbatim>\<open>ValueError\<close> on a negative
  argument. The result carries the state also when an exception leaves the function.
\<close>

function get_page_source ::
  "env \<Rightarrow> string option \<Rightarrow> int \<Rightarrow> st \<Rightarrow> (exn + bool \<times> bytes option) \<times> st" where
  "get_page_source e url retries s =
     (case try_request e url s of
        (status, page_src, s1) \<Rightarrow>
          if \<not> status then
            (if retries > 0 then
               (if retry_after s1 < 0 then (Inl ValueError, s1)
                else get_page_source e url (retries - 1)
                       (s1\<lparr>clock := clock s1 + retry_after s1\<rparr>))
             else (Inr (status, page_src), s1))
          else (Inr (status, page_src), s1))"
  by pat_completeness auto
termination
  by (relation "measure (\<lambda>(e, url, retries, s). nat retries)") auto

declare get_page_source.simps [simp del]

subsection \<open>The chapter index as a dictionary\<close>

text \<open>
  \<open>dict_get d k\<close> is \<^verbatim>\<open>d.get(k, (None, 0))\<close>, \<open>dict_update old new\<close> is
  \<^verbatim>\<open>old.update(new)\<close>, \<open>enumerate1\<close> is \<^verbatim>\<open>enumerate(xs, start=1)\<close>.
\<close>

definition dict_get :: "chapter_index \<Rightarrow> int \<Rightarrow> string option \<times> int" where
  "dict_get d k = (case map_of d k of None \<Rightarrow> (None, 0) | Some (u, n) \<Rightarrow> (Some u, n))"

definition dict_update :: "chapter_index \<Rightarrow> chapter_index \<Rightarrow> chapter_index" where
  "dict_update old new = fold (\<lambda>(k, v). AList.update k v) new old"

definition enumerate1 :: "'a list \<Rightarrow> (int \<times> 'a) list" where
  "enumerate1 xs = zip (map int [1..<Suc (length xs)]) xs"

subsection \<open>Discovery\<close>

text \<open>
  \<open>get_chapter_list\<close> and the body of its \<^verbatim>\<open>for\<close> loop, \<open>chapters_loop\<close>, over the
  links still to visit. A chapter page that cannot be fetched starts the whole discovery
  again from inside the loop while retries are left, and the loop then goes on with the
  next link. \<^verbatim>\<open>raise (Exception, "...")\<close> raises \<^verbatim>\<open>TypeError\<close> in Python 3, a tuple
  being no exception; the sentinel is stored first. Joining a link to the base address
  stands outside every \<^verbatim>\<open>try\<close>: what \<^verbatim>\<open>urljoin\<close> raises leaves the function.
\<close>

function get_chapter_list :: "env \<Rightarrow> int \<Rightarrow> st \<Rightarrow> exn option \<times> st"
  and chapters_loop :: "env \<Rightarrow> int \<Rightarrow> (int \<times> string option) list \<Rightarrow> st \<Rightarrow> exn option \<times> st"
  where
  "get_chapter_list e retries s =
     (case get_page_source e (Some (manga_url s)) 3 s of
        (Inl x, s1) \<Rightarrow> (Some x, s1)
      | (Inr (status, page_html), s1) \<Rightarrow>
          if status then
            (case page_html of
               None \<Rightarrow> (Some TypeError, s1)
             | Some html \<Rightarrow>
                 (let chapters_links = select_chapterlist e html
                  in if chapters_links \<noteq> []
                     then chapters_loop e retries (enumerate1 chapters_links) s1
                     else (None, s1)))
          else if retries > 0 then get_chapter_list e (retries - 1) s1
          else (None, s1))"
| "chapters_loop e retries [] s = (None, s)"
| "chapters_loop e retries ((ch_num, href) # rest) s =
     (case urljoin e base_address href of
        Inl x \<Rightarrow> (Some x, s)
      | Inr chapter_url \<Rightarrow>
          (case get_page_source e (Some chapter_url) 3 s of
             (Inl x, s1) \<Rightarrow> (Some x, s1)
           | (Inr (status, page_html), s1) \<Rightarrow>
               if status then
                 (case page_html of
                    None \<Rightarrow> (Some TypeError, s1)
                  | Some html \<Rightarrow>
                      (case select_selectpage e html of
                         Some (Inr chapter_pages) \<Rightarrow>
                           chapters_loop e retries rest
                             (s1\<lparr>available_chapters :=
                                   AList.update ch_num (chapter_url, chapter_pages)
                                     (available_chapters s1)\<rparr>)
                       | Some (Inl x) \<Rightarrow> (Some x, s1)
                       | None \<Rightarrow>
                           (Some TypeError,
                            s1\<lparr>available_chapters :=
                                  AList.update ch_num (chapter_url, 0)
                                    (available_chapters s1)\<rparr>)))
               else if retries > 0 then
                 (case get_chapter_list e (retries - 1) s1 of
                    (Some x, s2) \<Rightarrow> (Some x, s2)
                  | (None, s2) \<Rightarrow> chapters_loop e retries rest s2)
               else chapters_loop e retries rest s1))"
  by pat_completeness auto
termination
  by (relation "(\<lambda>x. case x of Inl (e, r, s) \<Rightarrow> nat r | Inr (e, r, l, s) \<Rightarrow> nat r)
        <*mlex*> (\<lambda>x. case x of Inl _ \<Rightarrow> Suc 0 | Inr _ \<Rightarrow> 0)
        <*mlex*> (\<lambda>x. case x of Inl _ \<Rightarrow> 0 | Inr (e, r, l, s) \<Rightarrow> length l)
        <*mlex*> {}")
     (auto simp: wf_mlex mlex_less mlex_leq)

declare get_chapter_list.simps [simp del]
declare chapters_loop.simps [simp del]

subsection \<open>The progress store\<close>

definition save_chapter_list :: "st \<Rightarrow> exn option \<times> st" where
  "save_chapter_list s =
     (let data_file = manga_name s @ ''.pkl''
      in if \<not> path_exists s data_file then
           (case write_file s data_file (PickleFile (available_chapters s)) of
              Inl x \<Rightarrow> (Some x, s)
            | Inr s1 \<Rightarrow> (None, s1))
         else
           (case load_pickle s data_file of
              Inl x \<Rightarrow> (Some x, s)
            | Inr old_chapters \<Rightarrow>
                (case write_file s data_file
                        (PickleFile (dict_update old_chapters (available_chapters s))) of
                   Inl x \<Rightarrow> (Some x, s)
                 | Inr s1 \<Rightarrow> (None, s1))))"

definition load_chapter_list :: "st \<Rightarrow> (exn + bool) \<times> st" where
  "load_chapter_list s =
     (let data_file = manga_name s @ ''.pkl''
      in if path_exists s data_file then
           (case load_pickle s data_file of
              Inl x \<Rightarrow> (Inl x, s)
            | Inr d \<Rightarrow> (Inr True, s\<lparr>available_chapters := d\<rparr>))
         else (Inr False, s))"

subsection \<open>Downloading pages and chapters\<close>

definition save_image :: "env \<Rightarrow> string option \<Rightarrow> string \<Rightarrow> st \<Rightarrow> exn option \<times> st" where
  "save_image e image_url image_name s =
     (case get_page_source e image_url 3 s of
        (Inl x, s1) \<Rightarrow> (Some x, s1)
      | (Inr (status, image_source), s1) \<Rightarrow>
          if status then
            (case image_source of
               None \<Rightarrow> (Some TypeError, s1)
             | Some b \<Rightarrow>
                 (case write_file s1 image_name (File b) of
                    Inl x \<Rightarrow> (Some x, s1)
                  | Inr s2 \<Rightarrow> (None, s2)))
          else (None, s1))"

text \<open>
  The name \<open>get_chapter\<close> looks for before it downloads a page (line 328), and the name
  \<open>get_chapter_page\<close> saves the page under (line 365).
\<close>

definition skip_image_name :: "int \<Rightarrow> int \<Rightarrow> string" where
  "skip_image_name chapter_num chapter_page =
     str_int chapter_num @ ''-'' @ format_0d 2 chapter_page @ ''.jpeg''"

definition page_image_name :: "int \<Rightarrow> int \<Rightarrow> string" where
  "page_image_name chapter_num page_num =
     format_0d 3 chapter_num @ ''-'' @ str_int page_num @ ''.jpeg''"

text \<open>
  The bounds test of the source is the chained comparison
  \<^verbatim>\<open>0 >= page_num > chapter_pages_count\<close>, which Python reads as the conjunction of
  its two halves.
\<close>

function get_chapter_page :: "env \<Rightarrow> int \<Rightarrow> int \<Rightarrow> int \<Rightarrow> st \<Rightarrow> exn option \<times> st" where
  "get_chapter_page e chapter_num page_num retries s =
     (case dict_get (available_chapters s) chapter_num of
        (chapter_url, chapter_pages_count) \<Rightarrow>
          (case chapter_url of
             None \<Rightarrow> (None, s)
           | Some u \<Rightarrow>
               if u = [] then (None, s)
               else if 0 \<ge> page_num \<and> page_num > chapter_pages_count then (None, s)
               else
                 (let page_url = u @ ''/'' @ str_int page_num
                  in case get_page_source e (Some page_url) 3 s of
                       (Inl x, s1) \<Rightarrow> (Some x, s1)
                     | (Inr (status, page_source), s1) \<Rightarrow>
                         if status then
                           (case page_source of
                              None \<Rightarrow> (Some TypeError, s1)
                            | Some html \<Rightarrow>
                                (case select_img e html of
                                   Some image_url \<Rightarrow>
                                     save_image e image_url
                                       (page_image_name chapter_num page_num) s1
                                 | None \<Rightarrow> (None, s1)))
                         else if retries > 0
                              then get_chapter_page e chapter_num page_num (retries - 1) s1
                         else (None, s1))))"
  by pat_completeness auto
termination
  by (relation "measure (\<lambda>(e, c, p, retries, s). nat retries)") auto

declare get_chapter_page.simps [simp del]

fun pages_loop :: "env \<Rightarrow> int \<Rightarrow> int list \<Rightarrow> st \<Rightarrow> exn option \<times> st" where
  "pages_loop e chapter_num [] s = (None, s)"
| "pages_loop e chapter_num (chapter_page # rest) s =
     (if path_exists s (skip_image_name chapter_num chapter_page)
      then pages_loop e chapter_num rest s
      else (case get_chapter_page e chapter_num chapter_page 3 s of
              (Some x, s1) \<Rightarrow> (Some x, s1)
            | (None, s1) \<Rightarrow> pages_loop e chapter_num rest s1))"

definition get_chapter :: "env \<Rightarrow> int \<Rightarrow> int \<Rightarrow> st \<Rightarrow> exn option \<times> st" where
  "get_chapter e chapter_num retries s =
     (case dict_get (available_chapters s) chapter_num of
        (chapter_url, chapter_page_count) \<Rightarrow>
          (case chapter_url of
             None \<Rightarrow> (None, s)
           | Some u \<Rightarrow>
               if u = [] then (None, s)
               else
                 (let chapter_dir_name = ''CH-'' @ format_0d 3 chapter_num
                  in case (if \<not> path_exists s chapter_dir_name
                           then mkdir s chapter_dir_name else Inr s) of
                       Inl x \<Rightarrow> (Some x, s)
                     | Inr s1 \<Rightarrow>
                         (case chdir s1 chapter_dir_name of
                            Inl x \<Rightarrow> (Some x, s1)
                          | Inr s2 \<Rightarrow>
                              (case pages_loop e chapter_num [1..chapter_page_count] s2 of
                                 (Some x, s3) \<Rightarrow> (Some x, s3)
                               | (None, s3) \<Rightarrow>
                                   (case chdir s3 (target_dir s3) of
                                      Inl x \<Rightarrow> (Some x, s3)
                                    | Inr s4 \<Rightarrow> (None, s4)))))))"

subsection \<open>The full crawl\<close>

fun chapters_download :: "env \<Rightarrow> int list \<Rightarrow> st \<Rightarrow> exn option \<times> st" where
  "chapters_download e [] s = (None, s)"
| "chapters_download e (chapter_num # rest) s =
     (case get_chapter e chapter_num 3 s of
        (Some x, s1) \<Rightarrow> (Some x, s1)
      | (None, s1) \<Rightarrow> chapters_download e rest s1)"

definition grab_all_chapters :: "env \<Rightarrow> st \<Rightarrow> exn option \<times> st" where
  "grab_all_chapters e s =
     (case load_chapter_list s of
        (Inl x, s1) \<Rightarrow> (Some x, s1)
      | (Inr status, s1) \<Rightarrow>
          (case (if status then (None, s1)
                 else (case get_chapter_list e 3 s1 of
                         (Some x, s2) \<Rightarrow> (Some x, s2)
                       | (None, s2) \<Rightarrow> save_chapter_list s2)) of
             (Some x, s3) \<Rightarrow> (Some x, s3)
           | (None, s3) \<Rightarrow> chapters_download e (map fst (available_chapters s3)) s3))"

section \<open>A small site and a fresh process, for running the crawler\<close>

definition world0 :: world where
  "world0 = \<lparr>clock = 0, requests = [], cwd = [''w''],
              fs = [[] \<mapsto> Dir, [''w''] \<mapsto> Dir]\<rparr>"

text \<open>
  The toy server answers every request with status 200 and the URL as the body; the
  series page lists two chapters, every chapter has one page.
\<close>

definition site_env :: env where
  "site_env =
     \<lparr>transport = (\<lambda>k u. (1, Response 200 u)),
      poll_gap = 0,
      select_chapterlist =
        (\<lambda>html. if html = ''https://www.mangareader.net/naruto''
                 then [Some ''/naruto/1'', Some ''/naruto/2''] else []),
      select_selectpage = (\<lambda>html. Some (Inr 1)),
      select_img = (\<lambda>html. Some (Some (html @ ''.jpg''))),
      urljoin = (\<lambda>base href. case href of
                                None \<Rightarrow> Inr base
                              | Some h \<Rightarrow> Inr (''http://www.mangareader.net'' @ h))\<rparr>"

text \<open>
  The object the constructor builds in \<open>world0\<close> for the series \<^verbatim>\<open>naruto\<close>, with the
  default target directory and a wait of one tick between requests.
\<close>

definition reader0 :: st where
  "reader0 =
     \<lparr>clock = 0, requests = [], cwd = [''w''],
      fs = [[] \<mapsto> Dir, [''w''] \<mapsto> Dir],
      manga_url = ''https://www.mangareader.net/naruto'',
      target_dir = ''.'',
      manga_name = ''naruto'',
      time_out = 10,
      retry_count = 3,
      available_chapters = [],
      current_dir = [''w''],
      total_req_count = 0,
      total_bytes = 0,
      wait_time = 1,
      retry_after = 10,
      next_request_time = 1\<rparr>"

text \<open>
  The same object after \<^verbatim>\<open>target_dir\<close> has been set to the absolute path of the
  directory it works in, with one chapter of one page in its index.
\<close>

definition reader_abs :: st where
  "reader_abs = reader0\<lparr>target_dir := ''/w'',
       available_chapters := [(1, (''http://www.mangareader.net/naruto/1'', 1))]\<rparr>"


definition flaky_env :: env where
  "flaky_env = site_env\<lparr>transport :=
      (\<lambda>k u. if u = ''http://www.mangareader.net/naruto/1'' then (1, Raises)
              else (1, Response 200 u))\<rparr>"

text \<open>
  Two more: a site whose second chapter's page cannot be reached during the first 24
  requests of the process (and whose first chapter's page never can), with three
  chapters; and a site whose series page lists other chapters from the second request
  on, the page of the first chapter it listed at first being unreachable.
\<close>

definition late_env :: env where
  "late_env = site_env\<lparr>transport :=
      (\<lambda>k u. if u = ''http://www.mangareader.net/naruto/1'' then (1, Raises)
              else if u = ''http://www.mangareader.net/naruto/2'' \<and> k < 24 then (1, Raises)
              else (1, Response 200 u)),
      select_chapterlist :=
        (\<lambda>html. if html = ''https://www.mangareader.net/naruto''
                 then [Some ''/naruto/1'', Some ''/naruto/2'', Some ''/naruto/3''] else [])\<rparr>"

definition shifting_env :: env where
  "shifting_env = site_env\<lparr>transport :=
      (\<lambda>k u. if u = ''https://www.mangareader.net/naruto''
              then (1, Response 200 (if k = 0 then ''first listing'' else ''second listing''))
              else if u = ''http://www.mangareader.net/naruto/a'' then (1, Raises)
              else (1, Response 200 u)),
      select_chapterlist :=
        (\<lambda>html. if html = ''first listing'' then [Some ''/naruto/a'', Some ''/naruto/b'']
                 else if html = ''second listing'' then [Some ''/naruto/c'', Some ''/naruto/d'']
                 else [])\<rparr>"

text \<open>
  On the second of these sites, the states discovery goes through: after the series
  page has been fetched, after the first chapter's page has failed, and after the
  retry of the whole discovery that this failure starts.
\<close>

definition shift_listed :: st where
  "shift_listed =
     snd (get_page_source shifting_env (Some ''https://www.mangareader.net/naruto'') 3 reader0)"

definition shift_failed :: st where
  "shift_failed =
     snd (get_page_source shifting_env (Some ''http://www.mangareader.net/naruto/a'') 3
            shift_listed)"

definition shift_retried :: st where
  "shift_retried = snd (get_chapter_list shifting_env 2 shift_failed)"

section \<open>Vocabulary of the properties\<close>

text \<open>
  An attempt fails when the opener raises or the response's status is not 200;
  \<open>body_of\<close> is what the attempt leaves in \<^verbatim>\<open>page_src\<close>.
\<close>

definition failing :: "outcome \<Rightarrow> bool" where
  "failing out = (case out of Response code body \<Rightarrow> code \<noteq> 200 | Raises \<Rightarrow> True)"

definition body_of :: "outcome \<Rightarrow> bytes option" where
  "body_of out = (case out of Response code body \<Rightarrow> Some body | Raises \<Rightarrow> None)"

text \<open>
  A request log is paced by \<open>W\<close> when every request that follows an answered one starts
  at least \<open>W\<close> after that one finished. \<open>pace_inv\<close> adds what the fetcher keeps true of
  its own fields: each request started no earlier than the next allowed time in force,
  nothing finished in the future, and the next allowed time lies at least \<open>W\<close> after
  every answered request.
\<close>

fun paced :: "int \<Rightarrow> request list \<Rightarrow> bool" where
  "paced W [] = True"
| "paced W (r # rs) =
     ((answered r \<longrightarrow> list_all (\<lambda>q. finished r + W \<le> started q) rs) \<and> paced W rs)"

definition pace_inv :: "st \<Rightarrow> bool" where
  "pace_inv s =
     (paced (wait_time s) (requests s)
      \<and> list_all (\<lambda>r. not_before r \<le> started r \<and> started r \<le> finished r
                      \<and> finished r \<le> clock s
                      \<and> (answered r \<longrightarrow> finished r + wait_time s \<le> next_request_time s))
           (requests s))"

text \<open>A server that accepts every request with status 202 and never serves the page.\<close>

definition queue_env :: env where
  "queue_env = site_env\<lparr>transport := (\<lambda>k u. (1, Response 202 ''queued''))\<rparr>"

section \<open>Properties\<close>

subsection \<open>Construction\<close>



subsection \<open>URL validation\<close>

text \<open>
  C9. \<open>validate_url\<close> should accept a URL exactly when it lies on the source domain and
  its path names one series. The URL of the site root with a trailing slash has the
  right domain and the path \<^verbatim>\<open>/\<close>, which names no series, and it is accepted: the test
  for the root only looks for the empty path.
\<close>

theorem validate_url_site_root:
  "validate_url ''http://www.mangareader.net/''
   \<and> netloc (urlparse ''http://www.mangareader.net/'') = ''www.mangareader.net''
   \<and> path (urlparse ''http://www.mangareader.net/'') = ''/''"
  by code_simp

subsection \<open>The fetcher\<close>

lemma busy_wait_ge: "limit \<le> busy_wait g limit t \<and> t \<le> busy_wait g limit t"
proof (induction g limit t rule: busy_wait.induct)
  case (1 gap limit t)
  show ?case
  proof (cases "t < limit")
    case True
    with 1 show ?thesis by (subst (1 2) busy_wait.simps) auto
  next
    case False
    then show ?thesis by (subst (1 2) busy_wait.simps) auto
  qed
qed

lemma try_request_frame:
  assumes "try_request e url s = (status, page_src, s1)"
  shows "cwd s1 = cwd s \<and> fs s1 = fs s \<and> available_chapters s1 = available_chapters s
       \<and> wait_time s1 = wait_time s \<and> retry_after s1 = retry_after s
       \<and> target_dir s1 = target_dir s \<and> manga_url s1 = manga_url s
       \<and> manga_name s1 = manga_name s"
  using assms
  by (auto simp: try_request_def Let_def split: option.splits prod.splits outcome.splits)

lemma try_request_fails:
  assumes "failing (snd (transport e (length (requests s)) u))"
  shows "\<exists>s1. try_request e (Some u) s
            = (False, body_of (snd (transport e (length (requests s)) u)), s1)
          \<and> length (requests s1) = Suc (length (requests s))
          \<and> retry_after s1 = retry_after s"
  using assms
  by (auto simp: try_request_def Let_def failing_def body_of_def
           split: prod.splits outcome.splits)

text \<open>
  C3, as amended. With a retry budget \<open>retries \<ge> 0\<close> and a non-negative retry delay
  (the constructor makes it positive), if every attempt from now on fails, by a raised
  error or by a status other than 200, then \<open>get_page_source\<close> makes exactly
  \<open>retries + 1\<close> requests, raises nothing and returns the status \<^verbatim>\<open>False\<close>. The body
  it returns is what the last attempt left in \<^verbatim>\<open>page_src\<close>: \<^verbatim>\<open>None\<close> when that attempt
  raised, the body that was read when a response with another status came back.
\<close>

theorem get_page_source_exhausts:
  assumes "0 \<le> retries" and "0 \<le> retry_after s"
    and "\<forall>k \<ge> length (requests s). failing (snd (transport e k url))"
  shows "\<exists>s'. get_page_source e (Some url) retries s
            = (Inr (False, body_of (snd (transport e (length (requests s) + nat retries) url))), s')
          \<and> length (requests s') = length (requests s) + nat retries + 1"
  using assms
proof (induction "nat retries" arbitrary: retries s)
  case 0
  then have r: "retries = 0" by simp
  from 0 have "failing (snd (transport e (length (requests s)) url))" by simp
  from try_request_fails [OF this] obtain s1 where
    "try_request e (Some url) s
       = (False, body_of (snd (transport e (length (requests s)) url)), s1)"
    "length (requests s1) = Suc (length (requests s))" by blast
  then show ?case using r by (subst get_page_source.simps) simp
next
  case (Suc n)
  then have r: "retries > 0" "n = nat (retries - 1)" "0 \<le> retries - 1" by simp_all
  from Suc have "failing (snd (transport e (length (requests s)) url))" by simp
  from try_request_fails [OF this] obtain s1 where
    t: "try_request e (Some url) s
       = (False, body_of (snd (transport e (length (requests s)) url)), s1)"
    and l: "length (requests s1) = Suc (length (requests s))"
    and ra: "retry_after s1 = retry_after s" by blast
  let ?s2 = "s1\<lparr>clock := clock s1 + retry_after s1\<rparr>"
  have "\<forall>k \<ge> length (requests ?s2). failing (snd (transport e k url))"
    using Suc.prems(3) l by simp
  with Suc.hyps(1) [OF r(2) r(3), of ?s2] ra Suc.prems(2)
  obtain s' where
    "get_page_source e (Some url) (retries - 1) ?s2
       = (Inr (False, body_of (snd (transport e (length (requests ?s2) + nat (retries - 1)) url))), s')"
    "length (requests s') = length (requests ?s2) + nat (retries - 1) + 1"
    by auto
  moreover have "length (requests ?s2) + nat (retries - 1) = length (requests s) + nat retries"
    using l r(1) by simp
  ultimately show ?case using t r(1) ra Suc.prems(2)
    by (subst get_page_source.simps) simp
qed

theorem get_page_source_exhausts_witness:
  "fst (get_page_source queue_env (Some ''http://www.mangareader.net/naruto/1'') 2 reader0)
     = Inr (False, Some ''queued'')
   \<and> length (requests (snd (get_page_source queue_env
        (Some ''http://www.mangareader.net/naruto/1'') 2 reader0))) = 3"
proof -
  have a: "(0::int) \<le> 2" by simp
  have b: "0 \<le> retry_after reader0" by (simp add: reader0_def)
  have c: "\<forall>k \<ge> length (requests reader0).
             failing (snd (transport queue_env k ''http://www.mangareader.net/naruto/1''))"
    by (simp add: queue_env_def failing_def)
  from get_page_source_exhausts [OF a b c] show ?thesis
    by (auto simp: queue_env_def body_of_def reader0_def)
qed

text \<open>
  C3, as stated, fails: against a server that answers 202 every attempt fails, and the
  result is \<^verbatim>\<open>(False, b'queued')\<close>, not \<^verbatim>\<open>(False, None)\<close>.
\<close>

theorem failed_fetch_returns_body:
  "fst (get_page_source queue_env (Some ''http://www.mangareader.net/naruto/1'') 2 reader0)
     \<noteq> Inr (False, None)"
  by code_simp

subsection \<open>The constructor on the small site\<close>

lemma validate_naruto: "validate_url ''https://www.mangareader.net/naruto''"
  by code_simp

lemma name_naruto:
  "strip_chr CHR ''/'' (path (urlparse ''https://www.mangareader.net/naruto'')) = ''naruto''"
  by code_simp

lemma strip_naruto:
  "strip_chr CHR ''/'' ''https://www.mangareader.net/naruto/''
     = ''https://www.mangareader.net/naruto''"
  by code_simp

lemma tree_dot: "make_dir_tree ''.'' world0 = Inr world0"
  by (simp add: make_dir_tree_def is_abs_def world0_def path_isdir_def resolve_def
      step_path_def chdir_def)

lemma chdir_dot: "chdir world0 ''.'' = Inr world0"
  by (simp add: world0_def resolve_def step_path_def chdir_def is_abs_def)

lemma init_reader0:
  "init ''https://www.mangareader.net/naruto/'' ''.'' 1 10 3 10 world0 = Inr reader0"
  unfolding init_def Let_def strip_naruto tree_dot
  by (simp add: chdir_dot validate_naruto name_naruto) (simp add: world0_def reader0_def)

subsection \<open>Chapter download: skipping pages that are there\<close>

text \<open>
  Pages whose file, under the name \<open>get_chapter\<close> looks for, is in the chapter
  directory are skipped without a request.
\<close>

lemma pages_loop_all_present:
  "\<forall>p\<in>set ps. path_exists s (skip_image_name c p) \<Longrightarrow> pages_loop e c ps s = (None, s)"
  by (induction ps) auto

lemma get_chapter_skips_present_pages:
  assumes "dict_get (available_chapters s) c = (Some u, n)" and "u \<noteq> []"
    and "chdir s (''CH-'' @ format_0d 3 c) = Inr s2"
    and "\<forall>p\<in>set [1..n]. path_exists s2 (skip_image_name c p)"
  shows "requests (snd (get_chapter e c r s)) = requests s"
proof -
  from assms(3) have ex: "path_exists s (''CH-'' @ format_0d 3 c)"
    by (auto simp: chdir_def path_exists_def split: option.splits if_splits)
  from assms(3) have rq: "requests s2 = requests s"
    by (auto simp: chdir_def split: option.splits if_splits)
  show ?thesis
    using assms(1,2,3) ex rq pages_loop_all_present [OF assms(4), of e]
    by (auto simp: get_chapter_def Let_def chdir_def split: sum.splits option.splits if_splits)
qed

text \<open>
  C1. A second \<open>get_chapter\<close> of a chapter should fetch nothing, the name it checks being
  the name a page download writes. The two names differ: for chapter 1, page 1 the
  check looks for \<^verbatim>\<open>1-01.jpeg\<close> and the download writes \<^verbatim>\<open>001-1.jpeg\<close>. So on the small
  site the first run fetches the page and its image and leaves \<^verbatim>\<open>CH-001/001-1.jpeg\<close>,
  and the second run, finding no \<^verbatim>\<open>CH-001/1-01.jpeg\<close>, fetches both again.
\<close>

theorem second_get_chapter_fetches_again:
  "skip_image_name 1 1 = ''1-01.jpeg'' \<and> page_image_name 1 1 = ''001-1.jpeg''
   \<and> (let s1 = snd (get_chapter site_env 1 3 reader_abs);
           s2 = snd (get_chapter site_env 1 3 s1)
       in cwd s1 = [''w'']
          \<and> map req_url (requests s1) =
               [''http://www.mangareader.net/naruto/1/1'',
                ''http://www.mangareader.net/naruto/1/1.jpg'']
          \<and> fs s1 [''w'', ''CH-001'', ''001-1.jpeg'']
               = Some (File ''http://www.mangareader.net/naruto/1/1.jpg'')
          \<and> fs s1 [''w'', ''CH-001'', ''1-01.jpeg''] = None
          \<and> map req_url (requests s2) =
               [''http://www.mangareader.net/naruto/1/1'',
                ''http://www.mangareader.net/naruto/1/1.jpg'',
                ''http://www.mangareader.net/naruto/1/1'',
                ''http://www.mangareader.net/naruto/1/1.jpg''])"
  by code_simp

subsection \<open>Page download: the bounds test\<close>

text \<open>
  C2. A page number that is 0 or beyond the chapter's page count should be rejected
  without a request. With five pages in chapter 1, \<open>get_chapter_page\<close> asks the site for
  page 0 and for page 6 and saves what comes back: the chained comparison is true only
  for a page number that is at most 0 and also greater than the page count.
\<close>

theorem get_chapter_page_fetches_out_of_range:
  "(let s0 = reader0\<lparr>available_chapters := [(1, (''http://www.mangareader.net/naruto/1'', 5))]\<rparr>;
        s = snd (get_chapter_page site_env 1 0 3 s0);
        s' = snd (get_chapter_page site_env 1 6 3 s0)
    in map req_url (requests s) =
         [''http://www.mangareader.net/naruto/1/0'',
          ''http://www.mangareader.net/naruto/1/0.jpg'']
       \<and> fs s [''w'', ''001-0.jpeg'']
            = Some (File ''http://www.mangareader.net/naruto/1/0.jpg'')
       \<and> map req_url (requests s') =
         [''http://www.mangareader.net/naruto/1/6'',
          ''http://www.mangareader.net/naruto/1/6.jpg'']
       \<and> fs s' [''w'', ''001-6.jpeg'']
            = Some (File ''http://www.mangareader.net/naruto/1/6.jpg''))"
  by code_simp

subsection \<open>Chapter download: the working directory\<close>

text \<open>
  C8. \<open>get_chapter\<close> should leave the working directory where it found it. The object
  built with the default target directory \<^verbatim>\<open>.\<close> works in \<^verbatim>\<open>/w\<close>; after \<open>get_chapter\<close> of
  chapter 1 the working directory is \<^verbatim>\<open>/w/CH-001\<close>, because the directory is restored
  by \<^verbatim>\<open>os.chdir(self._target_dir)\<close> from inside the chapter directory. A full crawl of
  the two chapters ends in \<^verbatim>\<open>/w/CH-001/CH-002\<close>, with the second chapter saved there.
\<close>

theorem get_chapter_leaves_cwd_in_chapter_dir:
  "init ''https://www.mangareader.net/naruto/'' ''.'' 1 10 3 10 world0 = Inr reader0
   \<and> cwd reader0 = [''w'']
   \<and> cwd (snd (get_chapter site_env 1 3
        (reader0\<lparr>available_chapters := [(1, (''http://www.mangareader.net/naruto/1'', 1))]\<rparr>)))
       = [''w'', ''CH-001'']
   \<and> (let s = snd (grab_all_chapters site_env reader0)
       in cwd s = [''w'', ''CH-001'', ''CH-002'']
          \<and> fs s [''w'', ''CH-001'', ''CH-002'', ''002-1.jpeg'']
               = Some (File ''http://www.mangareader.net/naruto/2/1.jpg'')
          \<and> fs s [''w'', ''CH-002''] = None)"
proof (intro conjI)
  show "init ''https://www.mangareader.net/naruto/'' ''.'' 1 10 3 10 world0 = Inr reader0"
    by (rule init_reader0)
  show "cwd reader0 = [''w'']"
    by (simp add: reader0_def)
  show "cwd (snd (get_chapter site_env 1 3
        (reader0\<lparr>available_chapters := [(1, (''http://www.mangareader.net/naruto/1'', 1))]\<rparr>)))
       = [''w'', ''CH-001'']"
    by code_simp
  show "let s = snd (grab_all_chapters site_env reader0)
       in cwd s = [''w'', ''CH-001'', ''CH-002'']
          \<and> fs s [''w'', ''CH-001'', ''CH-002'', ''002-1.jpeg'']
               = Some (File ''http://www.mangareader.net/naruto/2/1.jpg'')
          \<and> fs s [''w'', ''CH-002''] = None"
    by code_simp
qed

subsection \<open>The fetcher: pacing\<close>

lemma paced_append:
  "paced W (rs @ [q])
     = (paced W rs \<and> (\<forall>r\<in>set rs. answered r \<longrightarrow> finished r + W \<le> started q))"
  by (induction rs) (auto simp: list_all_iff)

lemma paced_nth:
  "paced W rs \<Longrightarrow> i < j \<Longrightarrow> j < length rs \<Longrightarrow> answered (rs ! i)
     \<Longrightarrow> finished (rs ! i) + W \<le> started (rs ! j)"
proof (induction rs arbitrary: i j)
  case Nil
  then show ?case by simp
next
  case (Cons r rs)
  show ?case
  proof (cases i)
    case 0
    with Cons.prems obtain j' where j': "j = Suc j'" "j' < length rs"
      by (cases j) auto
    with Cons.prems 0 show ?thesis by (auto simp: list_all_length)
  next
    case (Suc i')
    with Cons.prems obtain j' where j': "j = Suc j'" "j' < length rs" "i' < j'"
      by (cases j) auto
    with Cons.prems Suc Cons.IH [of i' j'] show ?thesis by auto
  qed
qed

lemma try_request_pace:
  assumes "pace_inv s" and "try_request e url s = (status, page_src, s1)"
  shows "pace_inv s1 \<and> wait_time s1 = wait_time s
       \<and> (status \<longrightarrow> requests s1 \<noteq> [] \<and> answered (last (requests s1))
             \<and> next_request_time s1 = finished (last (requests s1)) + wait_time s1)"
proof -
  let ?t0 = "busy_wait (poll_gap e) (next_request_time s) (clock s)"
  have b: "next_request_time s \<le> ?t0" "clock s \<le> ?t0"
    using busy_wait_ge [of "next_request_time s" "poll_gap e" "clock s"] by simp_all
  have old: "\<And>r. r \<in> set (requests s) \<Longrightarrow>
      not_before r \<le> started r \<and> started r \<le> finished r \<and> finished r \<le> ?t0
      \<and> (answered r \<longrightarrow> finished r + wait_time s \<le> ?t0)"
    using assms(1) b by (fastforce simp: pace_inv_def list_all_iff)
  have nx: "\<And>r. r \<in> set (requests s) \<Longrightarrow> answered r
      \<Longrightarrow> finished r + wait_time s \<le> next_request_time s"
    using assms(1) by (auto simp: pace_inv_def list_all_iff)
  have pc: "paced (wait_time s) (requests s)"
    using assms(1) by (simp add: pace_inv_def)
  show ?thesis
  proof (cases url)
    case None
    with assms(2) old nx pc show ?thesis
      by (auto simp: try_request_def Let_def pace_inv_def list_all_iff)
  next
    case (Some u)
    obtain dur out where tr: "transport e (length (requests s)) u = (dur, out)"
      by (cases "transport e (length (requests s)) u")
    show ?thesis
    proof (cases out)
      case Raises
      with assms(2) Some tr b pc show ?thesis
        using old nx
        by (auto simp: try_request_def Let_def pace_inv_def list_all_iff paced_append)
           (use old in force)+
    next
      case (Response code body)
      with assms(2) Some tr b pc show ?thesis
        using old nx
        by (auto simp: try_request_def Let_def pace_inv_def list_all_iff paced_append)
           (use old in force)+
    qed
  qed
qed

lemma pace_inv_sleep: "pace_inv s \<Longrightarrow> 0 \<le> d \<Longrightarrow> pace_inv (s\<lparr>clock := clock s + d\<rparr>)"
  by (auto simp: pace_inv_def list_all_iff)

lemma get_page_source_pace:
  "pace_inv s \<Longrightarrow> get_page_source e url retries s = (res, s')
     \<Longrightarrow> pace_inv s' \<and> wait_time s' = wait_time s
       \<and> (\<forall>b. res = Inr (True, b) \<longrightarrow> requests s' \<noteq> [] \<and> answered (last (requests s'))
             \<and> next_request_time s' = finished (last (requests s')) + wait_time s')"
proof (induction e url retries s arbitrary: res s' rule: get_page_source.induct)
  case (1 e url retries s)
  obtain status page_src s1 where t: "try_request e url s = (status, page_src, s1)"
    by (cases "try_request e url s") auto
  note p = try_request_pace [OF "1.prems"(1) t]
  show ?case
  proof (cases "\<not> status \<and> retries > 0 \<and> \<not> retry_after s1 < 0")
    case True
    then have g: "get_page_source e url (retries - 1) (s1\<lparr>clock := clock s1 + retry_after s1\<rparr>)
                    = (res, s')"
      using "1.prems"(2) t by (subst (asm) get_page_source.simps) simp
    have "pace_inv (s1\<lparr>clock := clock s1 + retry_after s1\<rparr>)"
      using p True by (simp add: pace_inv_sleep)
    from "1.IH" [OF t [symmetric] refl _ _ _ this g] True p show ?thesis by simp
  next
    case False
    then show ?thesis
      using "1.prems"(2) t p by (subst (asm) get_page_source.simps) (auto split: if_splits)
  qed
qed

text \<open>
  C4. Started in a state whose log is paced, \<open>get_page_source\<close> leaves a paced log: no
  request it issues starts before the next allowed time that was in force when it began
  to wait; once a request has been answered, every later request starts at least the
  wait interval after the moment the answer was complete; and when the call succeeds,
  the next allowed time is the completion time of its last request plus the wait
  interval.
\<close>

theorem get_page_source_paced:
  assumes "pace_inv s" and "get_page_source e url retries s = (res, s')"
  shows "pace_inv s'
       \<and> (\<forall>j < length (requests s'). not_before (requests s' ! j) \<le> started (requests s' ! j))
       \<and> (\<forall>i j. i < j \<and> j < length (requests s') \<and> answered (requests s' ! i)
              \<longrightarrow> finished (requests s' ! i) + wait_time s' \<le> started (requests s' ! j))
       \<and> (\<forall>b. res = Inr (True, b) \<longrightarrow> requests s' \<noteq> [] \<and> answered (last (requests s'))
              \<and> next_request_time s' = finished (last (requests s')) + wait_time s')"
proof -
  note g = get_page_source_pace [OF assms]
  then have i: "pace_inv s'" by simp
  then have "paced (wait_time s') (requests s')" by (simp add: pace_inv_def)
  from paced_nth [OF this] i g show ?thesis
    by (auto simp: pace_inv_def list_all_length)
qed

theorem get_page_source_paced_witness:
  "pace_inv reader0
   \<and> (let s1 = snd (get_page_source site_env (Some ''http://www.mangareader.net/naruto/1'') 3
                     reader0);
           s2 = snd (get_page_source site_env (Some ''http://www.mangareader.net/naruto/2'') 3 s1)
       in pace_inv s2 \<and> wait_time s2 = 1
          \<and> map finished (requests s2) = [2, 4] \<and> map started (requests s2) = [1, 3])"
proof -
  let ?s1 = "snd (get_page_source site_env (Some ''http://www.mangareader.net/naruto/1'') 3
                   reader0)"
  let ?s2 = "snd (get_page_source site_env (Some ''http://www.mangareader.net/naruto/2'') 3 ?s1)"
  have p0: "pace_inv reader0"
    by (simp add: pace_inv_def reader0_def)
  from get_page_source_paced [OF p0 surjective_pairing]
  have p1: "pace_inv ?s1" by blast
  from get_page_source_paced [OF p1 surjective_pairing]
  have p2: "pace_inv ?s2" by blast
  have v: "wait_time ?s2 = 1 \<and> map finished (requests ?s2) = [2, 4]
           \<and> map started (requests ?s2) = [1, 3]"
    by code_simp
  from p0 p2 v show ?thesis by (simp add: Let_def)
qed

subsection \<open>The progress store\<close>

lemma walk_upd:
  "f q \<noteq> Some Dir \<Longrightarrow> n \<noteq> Dir \<Longrightarrow> walk (f(q \<mapsto> n)) d cs = walk f d cs"
  by (induction cs arbitrary: d) (auto simp: Let_def)

lemma write_file_resolve:
  assumes "write_file s p n = Inr s1" and "n \<noteq> Dir"
  shows "resolve s1 p' = resolve s p'"
  using assms
  by (auto simp: write_file_def resolve_def Let_def walk_upd split: option.splits if_splits)

lemma write_file_result:
  assumes "resolve s p = Some q" and "fs s q \<noteq> Some Dir"
  shows "write_file s p n = Inr (s\<lparr>fs := (fs s)(q \<mapsto> n)\<rparr>)"
  using assms by (simp add: write_file_def)

lemma map_of_dict_update:
  "distinct (map fst new) \<Longrightarrow> map_of (dict_update old new) = map_of old ++ map_of new"
proof (induction new arbitrary: old)
  case Nil
  then show ?case by (simp add: dict_update_def)
next
  case (Cons a new)
  obtain k v where a: "a = (k, v)" by (cases a)
  from Cons.prems a have d: "distinct (map fst new)" "k \<notin> fst ` set new" by auto
  have "map_of (dict_update old (a # new)) = map_of (dict_update (AList.update k v old) new)"
    by (simp add: dict_update_def a)
  also have "\<dots> = map_of (AList.update k v old) ++ map_of new"
    using Cons.IH [OF d(1)] .
  also have "\<dots> = map_of old ++ map_of (a # new)"
  proof -
    have nk: "map_of new k = None"
      using d(2) by (simp add: map_of_eq_None_iff)
    show ?thesis
      using nk by (auto simp: a update_conv' map_add_def fun_eq_iff split: option.splits)
  qed
  finally show ?case .
qed

lemma keys_dict_update: "fst ` set old \<subseteq> fst ` set (dict_update old new)"
proof (induction new arbitrary: old)
  case Nil
  then show ?case by (simp add: dict_update_def)
next
  case (Cons a new)
  obtain k v where a: "a = (k, v)" by (cases a)
  have "fst ` set old \<subseteq> fst ` set (AList.update k v old)"
    by (simp add: dom_update subset_insertI)
  also have "\<dots> \<subseteq> fst ` set (dict_update (AList.update k v old) new)"
    by (rule Cons.IH)
  finally show ?case by (simp add: dict_update_def a)
qed

lemma save_over_existing:
  assumes "load_pickle t (manga_name t @ ''.pkl'') = Inr old"
  shows "\<exists>t'. save_chapter_list t = (None, t')
            \<and> load_chapter_list t'
                = (Inr True, t'\<lparr>available_chapters := dict_update old (available_chapters t)\<rparr>)"
proof -
  from assms obtain q where q: "resolve t (manga_name t @ ''.pkl'') = Some q"
      "fs t q = Some (PickleFile old)"
    by (auto simp: load_pickle_def split: option.splits node.splits)
  let ?n = "PickleFile (dict_update old (available_chapters t))"
  let ?t' = "t\<lparr>fs := (fs t)(q \<mapsto> ?n)\<rparr>"
  have w: "write_file t (manga_name t @ ''.pkl'') ?n = Inr ?t'"
    using q by (simp add: write_file_result)
  have ex: "path_exists t (manga_name t @ ''.pkl'')"
    using q by (simp add: path_exists_def)
  have sv: "save_chapter_list t = (None, ?t')"
    using ex assms w by (simp add: save_chapter_list_def Let_def)
  have r: "resolve ?t' (manga_name t @ ''.pkl'') = Some q"
    using write_file_resolve [OF w] q by simp
  have "load_chapter_list ?t'
      = (Inr True, ?t'\<lparr>available_chapters := dict_update old (available_chapters t)\<rparr>)"
    using r by (simp add: load_chapter_list_def Let_def path_exists_def load_pickle_def)
  with sv show ?thesis by blast
qed

lemma save_fresh:
  assumes "resolve t (manga_name t @ ''.pkl'') = Some q" and "fs t q = None"
  shows "save_chapter_list t
           = (None, t\<lparr>fs := (fs t)(q \<mapsto> PickleFile (available_chapters t))\<rparr>)"
  using assms
  by (simp add: save_chapter_list_def Let_def path_exists_def write_file_result)


lemma resolve_cong:
  "fs (t::st) = fs (t'::st) \<Longrightarrow> cwd t = cwd t' \<Longrightarrow> resolve t p = resolve t' p"
  by (simp add: resolve_def)

lemma resolve_index_irrelevant [simp]:
  "resolve ((t::st)\<lparr>available_chapters := x\<rparr>) p = resolve t p"
  by (simp add: resolve_def)

text \<open>
  C6. Where no index file exists yet and its name can be written, saving the index
  \<^verbatim>\<open>{1: (urlA, 5)}\<close>, then saving \<^verbatim>\<open>{2: (urlB, 3)}\<close>, then loading gives exactly
  \<^verbatim>\<open>{1: (urlA, 5), 2: (urlB, 3)}\<close>. And in general a save over a stored index loses
  none of its keys: what is stored afterwards, and loaded back, is the old index
  overridden by the saved one.
\<close>

theorem save_then_load_merges:
  assumes "resolve s (manga_name s @ ''.pkl'') = Some q" and "fs s q = None"
  shows "(let s1 = snd (save_chapter_list (s\<lparr>available_chapters := [(1, (urlA, 5))]\<rparr>));
              s2 = snd (save_chapter_list (s1\<lparr>available_chapters := [(2, (urlB, 3))]\<rparr>));
              r = load_chapter_list s2
          in fst r = Inr True
             \<and> available_chapters (snd r) = [(1, (urlA, 5)), (2, (urlB, 3))])
       \<and> (\<forall>t old. load_pickle t (manga_name t @ ''.pkl'') = Inr old
                    \<and> distinct (map fst (available_chapters t))
            \<longrightarrow> (\<exists>t' new. save_chapter_list t = (None, t')
                   \<and> load_chapter_list t' = (Inr True, t'\<lparr>available_chapters := new\<rparr>)
                   \<and> fst ` set old \<subseteq> fst ` set new
                   \<and> map_of new = map_of old ++ map_of (available_chapters t)))"
proof (intro conjI allI impI)
  let ?f = "manga_name s @ ''.pkl''"
  let ?a = "s\<lparr>available_chapters := [(1, (urlA, 5))]\<rparr>"
  let ?s1 = "?a\<lparr>fs := (fs ?a)(q \<mapsto> PickleFile [(1, (urlA, 5))])\<rparr>"
  let ?b = "?s1\<lparr>available_chapters := [(2, (urlB, 3))]\<rparr>"
  have 1: "save_chapter_list ?a = (None, ?s1)"
    using save_fresh [of ?a q] assms by simp
  have w: "write_file ?a ?f (PickleFile [(1, (urlA, 5))]) = Inr ?s1"
    using assms by (simp add: write_file_result)
  have "resolve ?s1 ?f = Some q"
    using write_file_resolve [OF w, of ?f] assms by simp
  moreover have "resolve ?b ?f = resolve ?s1 ?f"
    by (rule resolve_cong) simp_all
  moreover have "fs ?b q = Some (PickleFile [(1, (urlA, 5))])" "manga_name ?b = manga_name s"
    by simp_all
  ultimately have lp: "load_pickle ?b (manga_name ?b @ ''.pkl'') = Inr [(1, (urlA, 5))]"
    unfolding load_pickle_def by (simp del: resolve_index_irrelevant)
  from save_over_existing [OF lp] obtain t' where
    t': "save_chapter_list ?b = (None, t')"
        "load_chapter_list t'
           = (Inr True, t'\<lparr>available_chapters :=
                dict_update [(1, (urlA, 5))] (available_chapters ?b)\<rparr>)"
    by blast
  have "dict_update [(1, (urlA, 5))] (available_chapters ?b) = [(1, (urlA, 5)), (2, (urlB, 3))]"
    by (simp add: dict_update_def)
  with 1 t' show "let s1 = snd (save_chapter_list ?a);
              s2 = snd (save_chapter_list (s1\<lparr>available_chapters := [(2, (urlB, 3))]\<rparr>));
              r = load_chapter_list s2
          in fst r = Inr True
             \<and> available_chapters (snd r) = [(1, (urlA, 5)), (2, (urlB, 3))]"
    by (simp add: Let_def)
next
  fix t :: st and old
  assume h: "load_pickle t (manga_name t @ ''.pkl'') = Inr old
             \<and> distinct (map fst (available_chapters t))"
  from save_over_existing [of t old] h obtain t' where
    "save_chapter_list t = (None, t')"
    "load_chapter_list t'
       = (Inr True, t'\<lparr>available_chapters := dict_update old (available_chapters t)\<rparr>)"
    by blast
  moreover have "fst ` set old \<subseteq> fst ` set (dict_update old (available_chapters t))"
    by (rule keys_dict_update)
  moreover have "map_of (dict_update old (available_chapters t))
                   = map_of old ++ map_of (available_chapters t)"
    using h by (simp add: map_of_dict_update)
  ultimately show "\<exists>t' new. save_chapter_list t = (None, t')
                   \<and> load_chapter_list t' = (Inr True, t'\<lparr>available_chapters := new\<rparr>)
                   \<and> fst ` set old \<subseteq> fst ` set new
                   \<and> map_of new = map_of old ++ map_of (available_chapters t)"
    by blast
qed

theorem save_then_load_merges_witness:
  "resolve reader0 (manga_name reader0 @ ''.pkl'') = Some [''w'', ''naruto.pkl'']
   \<and> fs reader0 [''w'', ''naruto.pkl''] = None
   \<and> (let s1 = snd (save_chapter_list (reader0\<lparr>available_chapters := [(1, (''urlA'', 5))]\<rparr>));
           s2 = snd (save_chapter_list (s1\<lparr>available_chapters := [(2, (''urlB'', 3))]\<rparr>));
           r = load_chapter_list s2
       in fst r = Inr True
          \<and> available_chapters (snd r) = [(1, (''urlA'', 5)), (2, (''urlB'', 3))])"
proof -
  have a: "resolve reader0 (manga_name reader0 @ ''.pkl'') = Some [''w'', ''naruto.pkl'']"
    by (simp add: reader0_def resolve_def is_abs_def step_path_def)
  have b: "fs reader0 [''w'', ''naruto.pkl''] = None"
    by (simp add: reader0_def)
  from save_then_load_merges [OF a b, of "''urlA''" "''urlB''"] a b show ?thesis
    by blast
qed

subsection \<open>Discovery: a proof rule\<close>

text \<open>
  Whatever every fetch and every store into the index keep true, discovery keeps
  true; and when in addition no fetch raises and every chapter page carries a page
  count and every link can be joined to the base address (\<open>N\<close>), discovery returns
  without raising.
\<close>

lemma enumerate1_keys: "x \<in> set (enumerate1 xs) \<Longrightarrow> 1 \<le> fst x"
  by (cases x) (auto simp: enumerate1_def dest!: set_zip_leftD)

lemma discovery_generic:
  assumes fetch: "\<And>s u res s'. I s \<Longrightarrow> get_page_source e u 3 s = (res, s')
             \<Longrightarrow> I s' \<and> (N \<longrightarrow> (\<exists>st src. res = Inr (st, src) \<and> (st \<longrightarrow> src \<noteq> None)))"
    and upd: "\<And>s k v. I s \<Longrightarrow> 1 \<le> k
             \<Longrightarrow> I (s\<lparr>available_chapters := AList.update k v (available_chapters s)\<rparr>)"
    and marker: "\<And>html. N \<Longrightarrow> \<exists>n. select_selectpage e html = Some (Inr n)"
    and joined: "\<And>href. N \<Longrightarrow> \<exists>u. urljoin e base_address href = Inr u"
  shows "I s \<Longrightarrow> I (snd (get_chapter_list e r s)) \<and> (N \<longrightarrow> fst (get_chapter_list e r s) = None)"
    and "I s \<Longrightarrow> \<forall>x\<in>set l. 1 \<le> fst x
           \<Longrightarrow> I (snd (chapters_loop e r l s)) \<and> (N \<longrightarrow> fst (chapters_loop e r l s) = None)"
proof -
  define G where "G r s \<longleftrightarrow>
      (I s \<longrightarrow> I (snd (get_chapter_list e r s)) \<and> (N \<longrightarrow> fst (get_chapter_list e r s) = None))"
    for r s
  define L where "L r l s \<longleftrightarrow>
      (I s \<longrightarrow> (\<forall>x\<in>set l. 1 \<le> fst x)
         \<longrightarrow> I (snd (chapters_loop e r l s)) \<and> (N \<longrightarrow> fst (chapters_loop e r l s) = None))"
    for r l s
  have loop_step: "L r l s" if prev: "0 < r \<Longrightarrow> \<forall>s. G (r - 1) s" for r l s
  proof (induction l arbitrary: s)
    case Nil
    show ?case by (simp add: L_def chapters_loop.simps)
  next
    case (Cons a rest)
    obtain ch_num href where a: "a = (ch_num, href)" by (cases a)
    show ?case
      unfolding L_def
    proof (intro impI)
      assume i: "I s" and k: "\<forall>x\<in>set (a # rest). 1 \<le> fst x"
      then have k1: "1 \<le> ch_num" and kr: "\<forall>x\<in>set rest. 1 \<le> fst x"
        using a by auto
      have rec: "\<And>t. I t \<Longrightarrow> I (snd (chapters_loop e r rest t))
                    \<and> (N \<longrightarrow> fst (chapters_loop e r rest t) = None)"
        using Cons.IH kr by (simp add: L_def)
      show "I (snd (chapters_loop e r (a # rest) s))
              \<and> (N \<longrightarrow> fst (chapters_loop e r (a # rest) s) = None)"
      proof (cases "urljoin e base_address href")
        case (Inl x)
        with i joined [of href] show ?thesis by (auto simp: a chapters_loop.simps)
      next
        case uj: (Inr chapter_url)
      obtain res s1 where g: "get_page_source e (Some chapter_url) 3 s = (res, s1)"
        by (cases "get_page_source e (Some chapter_url) 3 s")
      note f = fetch [OF i g]
      show ?thesis
      proof (cases res)
        case (Inl x)
        with f g show ?thesis by (simp add: a uj chapters_loop.simps)
      next
        case (Inr b)
        obtain st src where b: "b = (st, src)" by (cases b)
        show ?thesis
        proof (cases st)
          case True
          show ?thesis
          proof (cases src)
            case None
            with f g Inr b True show ?thesis by (simp add: a uj chapters_loop.simps)
          next
            case (Some html)
            show ?thesis
            proof (cases "select_selectpage e html")
              case None
              with f g Inr b True Some upd [OF _ k1] marker [of html] show ?thesis
                by (auto simp: a uj chapters_loop.simps)
            next
              case (Some m)
              show ?thesis
              proof (cases m)
                case (Inl x)
                with f g Inr b True \<open>src = Some html\<close> Some marker [of html] show ?thesis
                  by (auto simp: a uj chapters_loop.simps)
              next
                case (Inr n)
                have "I (s1\<lparr>available_chapters :=
                        AList.update ch_num (chapter_url, n)
                          (available_chapters s1)\<rparr>)"
                  using f k1 by (simp add: upd)
                from rec [OF this] g \<open>res = Inr b\<close> b True \<open>src = Some html\<close> Some Inr
                show ?thesis by (simp add: a uj chapters_loop.simps)
              qed
            qed
          qed
        next
          case False
          show ?thesis
          proof (cases "0 < r")
            case True
            obtain x s2 where gl: "get_chapter_list e (r - 1) s1 = (x, s2)"
              by (cases "get_chapter_list e (r - 1) s1")
            from prev [OF True] f gl have i2: "I s2" and n2: "N \<longrightarrow> x = None"
              by (auto simp: G_def)
            show ?thesis
            proof (cases x)
              case None
              with rec [OF i2] g Inr b False True gl show ?thesis
                by (simp add: a uj chapters_loop.simps)
            next
              case (Some y)
              with i2 n2 g Inr b False True gl show ?thesis
                by (simp add: a uj chapters_loop.simps)
            qed
          next
            case nr: False
            from f have "I s1" by simp
            from rec [OF this] g Inr b False nr show ?thesis
              by (simp add: a uj chapters_loop.simps)
          qed
        qed
      qed
      qed
    qed
  qed
  have list_step: "G r s" if prev: "0 < r \<Longrightarrow> \<forall>s. G (r - 1) s" for r s
    unfolding G_def
  proof (intro impI)
    assume i: "I s"
    obtain res s1 where g: "get_page_source e (Some (manga_url s)) 3 s = (res, s1)"
      by (cases "get_page_source e (Some (manga_url s)) 3 s")
    note f = fetch [OF i g]
    show "I (snd (get_chapter_list e r s)) \<and> (N \<longrightarrow> fst (get_chapter_list e r s) = None)"
    proof (cases res)
      case (Inl x)
      with f g show ?thesis by (simp add: get_chapter_list.simps)
    next
      case (Inr b)
      obtain st src where b: "b = (st, src)" by (cases b)
      show ?thesis
      proof (cases st)
        case True
        show ?thesis
        proof (cases src)
          case None
          with f g Inr b True show ?thesis by (simp add: get_chapter_list.simps)
        next
          case (Some html)
          have "L r (enumerate1 (select_chapterlist e html)) s1"
            by (rule loop_step [OF prev])
          with f have "I (snd (chapters_loop e r (enumerate1 (select_chapterlist e html)) s1))
              \<and> (N \<longrightarrow> fst (chapters_loop e r (enumerate1 (select_chapterlist e html)) s1) = None)"
            by (simp add: L_def enumerate1_keys)
          with f g Inr b True Some show ?thesis
            by (simp add: get_chapter_list.simps Let_def)
        qed
      next
        case False
        with f g Inr b prev show ?thesis
          by (auto simp: get_chapter_list.simps G_def)
      qed
    qed
  qed
  have all: "\<forall>s. G r s" for r
  proof (induction "nat r" arbitrary: r)
    case 0
    then show ?case by (auto intro: list_step)
  next
    case (Suc n)
    then have "\<forall>s. G (r - 1) s" by simp
    then show ?case by (auto intro: list_step)
  qed
  show "I s \<Longrightarrow> I (snd (get_chapter_list e r s)) \<and> (N \<longrightarrow> fst (get_chapter_list e r s) = None)"
    using all [of r] by (simp add: G_def)
  show "I s \<Longrightarrow> \<forall>x\<in>set l. 1 \<le> fst x
           \<Longrightarrow> I (snd (chapters_loop e r l s)) \<and> (N \<longrightarrow> fst (chapters_loop e r l s) = None)"
    using loop_step [of r l s] all [of "r - 1"] by (simp add: L_def)
qed

subsection \<open>The fetcher: what it leaves alone, when it returns, when it succeeds\<close>

lemma get_page_source_frame:
  "get_page_source e url retries s = (res, s')
     \<Longrightarrow> cwd s' = cwd s \<and> fs s' = fs s \<and> available_chapters s' = available_chapters s
       \<and> wait_time s' = wait_time s \<and> retry_after s' = retry_after s
       \<and> target_dir s' = target_dir s \<and> manga_url s' = manga_url s
       \<and> manga_name s' = manga_name s"
proof (induction e url retries s arbitrary: res s' rule: get_page_source.induct)
  case (1 e url retries s)
  obtain status page_src s1 where t: "try_request e url s = (status, page_src, s1)"
    by (cases "try_request e url s") auto
  note f = try_request_frame [OF t]
  show ?case
  proof (cases "\<not> status \<and> retries > 0 \<and> \<not> retry_after s1 < 0")
    case True
    then have g: "get_page_source e url (retries - 1) (s1\<lparr>clock := clock s1 + retry_after s1\<rparr>)
                    = (res, s')"
      using "1.prems" t by (subst (asm) get_page_source.simps) simp
    from "1.IH" [OF t [symmetric] refl _ _ _ g] True f show ?thesis by simp
  next
    case False
    then show ?thesis
      using "1.prems" t f by (subst (asm) get_page_source.simps) (auto split: if_splits)
  qed
qed



lemma try_request_succeeds:
  assumes "\<not> failing (snd (transport e (length (requests s)) u))"
  shows "\<exists>d b s1. try_request e (Some u) s = (True, Some b, s1)
          \<and> transport e (length (requests s)) u = (d, Response 200 b)"
  using assms
  by (auto simp: try_request_def Let_def failing_def split: prod.splits outcome.splits)

lemma get_page_source_succeeds:
  assumes "0 \<le> retry_after s"
    and "\<exists>j \<le> nat retries. \<not> failing (snd (transport e (length (requests s) + j) u))"
  shows "\<exists>k d b s'. get_page_source e (Some u) retries s = (Inr (True, Some b), s')
          \<and> transport e k u = (d, Response 200 b)"
  using assms
proof (induction "nat retries" arbitrary: retries s)
  case 0
  then have "\<not> failing (snd (transport e (length (requests s)) u))" by simp
  from try_request_succeeds [OF this] obtain d b s1 where
    "try_request e (Some u) s = (True, Some b, s1)"
    "transport e (length (requests s)) u = (d, Response 200 b)" by blast
  then show ?case
    by (subst get_page_source.simps) (simp, blast)
next
  case (Suc n)
  show ?case
  proof (cases "failing (snd (transport e (length (requests s)) u))")
    case False
    from try_request_succeeds [OF this] obtain d b s1 where
      "try_request e (Some u) s = (True, Some b, s1)"
      "transport e (length (requests s)) u = (d, Response 200 b)" by blast
    then show ?thesis
      by (subst get_page_source.simps) (simp, blast)
  next
    case True
    from try_request_fails [OF True] obtain s1 where
      t: "try_request e (Some u) s
           = (False, body_of (snd (transport e (length (requests s)) u)), s1)"
      and l: "length (requests s1) = Suc (length (requests s))"
      and ra: "retry_after s1 = retry_after s" by blast
    from Suc.prems(2) obtain j where j: "j \<le> nat retries"
        "\<not> failing (snd (transport e (length (requests s) + j) u))" by blast
    with True have "j \<noteq> 0" by (cases j) auto
    then obtain j' where j': "j = Suc j'" by (cases j) auto
    let ?s2 = "s1\<lparr>clock := clock s1 + retry_after s1\<rparr>"
    have r: "n = nat (retries - 1)" "0 < retries" using Suc.hyps(2) by simp_all
    have "\<exists>j \<le> nat (retries - 1). \<not> failing (snd (transport e (length (requests ?s2) + j) u))"
      using j j' l by (intro exI [of _ j']) simp
    from Suc.hyps(1) [OF r(1) _ this] ra Suc.prems(1)
    obtain k d b s' where
      "get_page_source e (Some u) (retries - 1) ?s2 = (Inr (True, Some b), s')"
      "transport e k u = (d, Response 200 b)" by auto
    then show ?thesis using t r(2) ra Suc.prems(1)
      by (subst get_page_source.simps) (simp, blast)
  qed
qed

subsection \<open>Discovery when every fetch succeeds\<close>

lemma update_new: "k \<notin> fst ` set al \<Longrightarrow> AList.update k v al = al @ [(k, v)]"
  by (induction al) auto

lemma enumerate1_nth:
  "i < length xs \<Longrightarrow> enumerate1 xs ! i = (int (Suc i), xs ! i)"
  by (simp add: enumerate1_def del: upt_Suc)

lemma enumerate1_length [simp]: "length (enumerate1 xs) = length xs"
  by (simp add: enumerate1_def del: upt_Suc)

lemma enumerate1_distinct: "distinct (map fst (enumerate1 xs))"
proof -
  have "map fst (enumerate1 xs) = map int [1..<Suc (length xs)]"
    unfolding enumerate1_def by (rule map_fst_zip) (simp del: upt_Suc)
  then show ?thesis by (simp add: distinct_map inj_on_def del: upt_Suc)
qed

text \<open>Every fetch succeeds within the fetcher's own three retries.\<close>

lemma chapters_loop_all_fetched:
  assumes ok: "\<forall>n u. \<exists>j\<le>3. \<not> failing (snd (transport e (n + j) u))"
  shows "0 \<le> retry_after s \<Longrightarrow> distinct (map fst l)
     \<Longrightarrow> fst ` set l \<inter> fst ` set (available_chapters s) = {}
     \<Longrightarrow> \<exists>ucs. length ucs \<le> length l
           \<and> (\<forall>i<length ucs. urljoin e base_address (snd (l ! i)) = Inr (fst (ucs ! i)))
           \<and> available_chapters (snd (chapters_loop e r l s))
               = available_chapters s @ map (\<lambda>((k, h), uc). (k, uc)) (zip l ucs)"
proof (induction l arbitrary: s)
  case Nil
  then show ?case by (simp add: chapters_loop.simps)
next
  case (Cons a rest)
  obtain ch_num href where a: "a = (ch_num, href)" by (cases a)
  show ?case
  proof (cases "urljoin e base_address href")
    case (Inl x)
    then have "available_chapters (snd (chapters_loop e r (a # rest) s)) = available_chapters s"
      by (simp add: a chapters_loop.simps)
    then show ?thesis by (intro exI [of _ "[]"]) simp
  next
    case uj: (Inr u)
    from ok have "\<exists>j \<le> nat 3. \<not> failing (snd (transport e (length (requests s) + j) u))"
      by simp
    from get_page_source_succeeds [OF Cons.prems(1) this] obtain html s1 where
      g: "get_page_source e (Some u) 3 s = (Inr (True, Some html), s1)" by blast
    from get_page_source_frame [OF g] have
      fr: "available_chapters s1 = available_chapters s" "retry_after s1 = retry_after s"
      by simp_all
    from Cons.prems a have new: "ch_num \<notin> fst ` set (available_chapters s)" by auto
    show ?thesis
    proof (cases "select_selectpage e html")
      case None
      have "available_chapters (snd (chapters_loop e r (a # rest) s))
              = available_chapters s @ [(ch_num, (u, 0))]"
        using g None fr new by (simp add: a uj chapters_loop.simps update_new)
      then show ?thesis using uj by (intro exI [of _ "[(u, 0)]"]) (simp add: a)
    next
      case (Some m)
      show ?thesis
      proof (cases m)
        case (Inl x)
        have "available_chapters (snd (chapters_loop e r (a # rest) s)) = available_chapters s"
          using g Some Inl fr by (simp add: a uj chapters_loop.simps)
        then show ?thesis by (intro exI [of _ "[]"]) simp
      next
        case (Inr n)
        let ?s2 = "s1\<lparr>available_chapters :=
                       AList.update ch_num (u, n) (available_chapters s1)\<rparr>"
        have av: "available_chapters ?s2 = available_chapters s @ [(ch_num, (u, n))]"
          using fr new by (simp add: update_new)
        have "0 \<le> retry_after ?s2" using fr Cons.prems(1) by simp
        moreover have "distinct (map fst rest)" using Cons.prems(2) by simp
        moreover have "fst ` set rest \<inter> fst ` set (available_chapters ?s2) = {}"
          using Cons.prems(2,3) a av by auto
        ultimately obtain ucs where ucs: "length ucs \<le> length rest"
          "\<forall>i<length ucs. urljoin e base_address (snd (rest ! i)) = Inr (fst (ucs ! i))"
          "available_chapters (snd (chapters_loop e r rest ?s2))
             = available_chapters ?s2 @ map (\<lambda>((k, h), uc). (k, uc)) (zip rest ucs)"
          using Cons.IH [of ?s2] by blast
        have "chapters_loop e r (a # rest) s = chapters_loop e r rest ?s2"
          using g Some Inr by (simp add: a uj chapters_loop.simps)
        with ucs av uj show ?thesis
          by (intro exI [of _ "(u, n) # ucs"]) (auto simp: a less_Suc_eq_0_disj)
      qed
    qed
  qed
qed

lemma get_chapter_list_all_fetched:
  assumes ok: "\<forall>n u. \<exists>j\<le>3. \<not> failing (snd (transport e (n + j) u))"
    and ra: "0 \<le> retry_after s" and fresh: "available_chapters s = []"
  shows "\<exists>k d html ucs. transport e k (manga_url s) = (d, Response 200 html)
           \<and> length ucs \<le> length (select_chapterlist e html)
           \<and> (\<forall>i<length ucs. urljoin e base_address (select_chapterlist e html ! i)
                                 = Inr (fst (ucs ! i)))
           \<and> available_chapters (snd (get_chapter_list e r s))
               = map (\<lambda>i. (int (Suc i), ucs ! i)) [0..<length ucs]"
proof -
  from ok have "\<exists>j \<le> nat 3. \<not> failing (snd (transport e (length (requests s) + j) (manga_url s)))"
    by simp
  from get_page_source_succeeds [OF ra this] obtain k d html s1 where
    g: "get_page_source e (Some (manga_url s)) 3 s = (Inr (True, Some html), s1)"
    and tr: "transport e k (manga_url s) = (d, Response 200 html)" by blast
  from get_page_source_frame [OF g] fresh ra have
    fr: "available_chapters s1 = []" "0 \<le> retry_after s1" by simp_all
  let ?links = "select_chapterlist e html"
  have "\<exists>ucs. length ucs \<le> length ?links
         \<and> (\<forall>i<length ucs. urljoin e base_address (snd (enumerate1 ?links ! i))
                               = Inr (fst (ucs ! i)))
         \<and> available_chapters (snd (get_chapter_list e r s))
             = map (\<lambda>((k, h), uc). (k, uc)) (zip (enumerate1 ?links) ucs)"
  proof (cases "?links = []")
    case True
    with g fr show ?thesis
      by (intro exI [of _ "[]"]) (simp add: get_chapter_list.simps)
  next
    case False
    from chapters_loop_all_fetched [OF ok fr(2), of "enumerate1 ?links" r] fr(1)
    obtain ucs where "length ucs \<le> length ?links"
      "\<forall>i<length ucs. urljoin e base_address (snd (enumerate1 ?links ! i))
                          = Inr (fst (ucs ! i))"
      "available_chapters (snd (chapters_loop e r (enumerate1 ?links) s1))
         = map (\<lambda>((k, h), uc). (k, uc)) (zip (enumerate1 ?links) ucs)"
      by (auto simp: enumerate1_distinct)
    with g False show ?thesis
      by (intro exI [of _ ucs]) (simp add: get_chapter_list.simps Let_def)
  qed
  then obtain ucs where ucs: "length ucs \<le> length ?links"
    "\<forall>i<length ucs. urljoin e base_address (snd (enumerate1 ?links ! i)) = Inr (fst (ucs ! i))"
    "available_chapters (snd (get_chapter_list e r s))
       = map (\<lambda>((k, h), uc). (k, uc)) (zip (enumerate1 ?links) ucs)"
    by blast
  have "map (\<lambda>((k, h), uc). (k, uc)) (zip (enumerate1 ?links) ucs)
      = map (\<lambda>i. (int (Suc i), ucs ! i)) [0..<length ucs]"
    using ucs(1) by (intro nth_equalityI) (simp_all add: enumerate1_nth)
  moreover have "\<forall>i<length ucs. urljoin e base_address (?links ! i) = Inr (fst (ucs ! i))"
    using ucs(1,2) by (simp add: enumerate1_nth)
  ultimately show ?thesis using ucs(1,3) tr
    by (intro exI [of _ k] exI [of _ d] exI [of _ html] exI [of _ ucs]) simp
qed

subsection \<open>Discovery: the chapter index\<close>

lemma flaky_run:
  "(case get_chapter_list flaky_env 3 reader0 of
      (x, s) \<Rightarrow> x = None
        \<and> available_chapters s = [(2, (''http://www.mangareader.net/naruto/2'', 1))])"
  by code_simp

lemma late_run:
  "(case get_chapter_list late_env 3 reader0 of
      (x, s) \<Rightarrow> x = None
        \<and> available_chapters s
            = [(3, (''http://www.mangareader.net/naruto/3'', 1)),
               (2, (''http://www.mangareader.net/naruto/2'', 1))])"
  by code_simp

lemma shift_first:
  "get_page_source shifting_env (Some ''https://www.mangareader.net/naruto'') 3 reader0
     = (Inr (True, Some ''first listing''), shift_listed)"
proof -
  have "fst (get_page_source shifting_env (Some ''https://www.mangareader.net/naruto'') 3 reader0)
          = Inr (True, Some ''first listing'')"
    by code_simp
  then show ?thesis by (simp add: shift_listed_def prod_eq_iff)
qed

lemma shift_second:
  "get_page_source shifting_env (Some ''http://www.mangareader.net/naruto/a'') 3 shift_listed
     = (Inr (False, None), shift_failed)"
proof -
  have "fst (get_page_source shifting_env (Some ''http://www.mangareader.net/naruto/a'') 3
               shift_listed) = Inr (False, None)"
    by code_simp
  then show ?thesis by (simp add: shift_failed_def prod_eq_iff)
qed

lemma shift_third:
  "(case get_chapter_list shifting_env 2 shift_failed of
      (x, m) \<Rightarrow> x = None
        \<and> available_chapters m
            = [(1, (''http://www.mangareader.net/naruto/c'', 1)),
               (2, (''http://www.mangareader.net/naruto/d'', 1))])"
  by code_simp

lemma shift_last:
  "(case chapters_loop shifting_env 3 [(2, Some ''/naruto/b'')] shift_retried of
      (x, s) \<Rightarrow> x = None
        \<and> available_chapters s
            = [(1, (''http://www.mangareader.net/naruto/c'', 1)),
               (2, (''http://www.mangareader.net/naruto/b'', 1))])"
  by code_simp

lemma shift_run:
  "get_chapter_list shifting_env 3 reader0
     = chapters_loop shifting_env 3 [(2, Some ''/naruto/b'')] shift_retried"
proof -
  have mu: "manga_url reader0 = ''https://www.mangareader.net/naruto''"
    by (simp add: reader0_def)
  have links: "select_chapterlist shifting_env ''first listing''
                 = [Some ''/naruto/a'', Some ''/naruto/b'']"
    by (simp add: shifting_env_def site_env_def)
  have en: "enumerate1 [Some ''/naruto/a'', Some ''/naruto/b'']
              = [(1, Some ''/naruto/a''), (2, Some ''/naruto/b'')]"
    by code_simp
  have uj: "urljoin shifting_env base_address (Some ''/naruto/a'')
              = Inr ''http://www.mangareader.net/naruto/a''"
    by (simp add: shifting_env_def site_env_def)
  have c: "get_chapter_list shifting_env 2 shift_failed = (None, shift_retried)"
    using shift_third by (simp add: shift_retried_def prod_eq_iff split: prod.splits)
  have "get_chapter_list shifting_env 3 reader0
          = chapters_loop shifting_env 3 [(1, Some ''/naruto/a''), (2, Some ''/naruto/b'')]
              shift_listed"
    by (subst get_chapter_list.simps) (simp add: mu shift_first links en)
  also have "\<dots> = chapters_loop shifting_env 3 [(2, Some ''/naruto/b'')] shift_retried"
    by (subst chapters_loop.simps) (simp add: uj shift_second c)
  finally show ?thesis .
qed

text \<open>
  C7. After discovery the keys of the index should be \<open>1..k\<close>, in this order, and a URL
  once recorded should stay. Three runs of \<open>get_chapter_list\<close> with the retry count of the
  full crawl, each returning normally, break this. Where the first chapter's page cannot
  be fetched, the loop logs the failure and goes on with the next link, and the index
  holds the key 2 alone. Where the second chapter's page can be fetched only late, the
  retry that the first failure starts records chapter 3, and the interrupted pass then
  adds chapter 2 after it. Where the series page lists other chapters on the second
  fetch, the retry records chapter 2 with the URL \<^verbatim>\<open>/naruto/d\<close> of the new listing, and
  the interrupted pass, going on with its old list, replaces it by \<^verbatim>\<open>/naruto/b\<close>.
\<close>

theorem discovery_breaks_index_invariant:
  "(case get_chapter_list flaky_env 3 reader0 of
      (x, s) \<Rightarrow> x = None
        \<and> available_chapters s = [(2, (''http://www.mangareader.net/naruto/2'', 1))])
   \<and> (case get_chapter_list late_env 3 reader0 of
        (x, s) \<Rightarrow> x = None
          \<and> available_chapters s
              = [(3, (''http://www.mangareader.net/naruto/3'', 1)),
                 (2, (''http://www.mangareader.net/naruto/2'', 1))])
   \<and> get_chapter_list shifting_env 3 reader0
        = chapters_loop shifting_env 3 [(2, Some ''/naruto/b'')] shift_retried
   \<and> available_chapters shift_retried
        = [(1, (''http://www.mangareader.net/naruto/c'', 1)),
           (2, (''http://www.mangareader.net/naruto/d'', 1))]
   \<and> (case get_chapter_list shifting_env 3 reader0 of
        (x, s) \<Rightarrow> x = None
          \<and> available_chapters s
              = [(1, (''http://www.mangareader.net/naruto/c'', 1)),
                 (2, (''http://www.mangareader.net/naruto/b'', 1))])"
proof -
  have "available_chapters shift_retried
        = [(1, (''http://www.mangareader.net/naruto/c'', 1)),
           (2, (''http://www.mangareader.net/naruto/d'', 1))]"
    using shift_third by (simp add: shift_retried_def split: prod.splits)
  with flaky_run late_run shift_run shift_last show ?thesis
    by simp
qed

text \<open>
  What does hold of the index: its keys stay distinct and at least 1; and in a run
  started from the empty index in which every fetch succeeds within the fetcher's own
  retries, the keys are \<open>1..k\<close> in this order, each chapter with the URL joined from the
  link at its place in the series page.
\<close>

lemma discovery_keys:
  assumes "distinct (map fst (available_chapters s))"
    and "\<forall>k\<in>fst ` set (available_chapters s). 1 \<le> k"
  shows "distinct (map fst (available_chapters (snd (get_chapter_list e r s))))
       \<and> (\<forall>k\<in>fst ` set (available_chapters (snd (get_chapter_list e r s))). 1 \<le> k)"
proof -
  let ?I = "\<lambda>s::st. distinct (map fst (available_chapters s))
                     \<and> (\<forall>k\<in>fst ` set (available_chapters s). 1 \<le> k)"
  have "?I (snd (get_chapter_list e r s)) \<and> (False \<longrightarrow> fst (get_chapter_list e r s) = None)"
  proof (rule discovery_generic(1) [where I = ?I and N = False])
    fix s u res s'
    assume "?I s" and "get_page_source e u 3 s = (res, s')"
    with get_page_source_frame [of e u 3 s res s']
    show "?I s' \<and> (False \<longrightarrow> (\<exists>st src. res = Inr (st, src) \<and> (st \<longrightarrow> src \<noteq> None)))"
      by simp
  next
    fix s :: st and k :: int and v
    assume "?I s" and "1 \<le> k"
    then show "?I (s\<lparr>available_chapters := AList.update k v (available_chapters s)\<rparr>)"
      by (simp add: distinct_update dom_update)
  next
    show "?I s" using assms by simp
  qed simp_all
  then show ?thesis by simp
qed

lemma discovery_index_when_fetched:
  assumes "available_chapters s = []" and "0 \<le> retry_after s"
    and "\<forall>n u. \<exists>j\<le>3. \<not> failing (snd (transport e (n + j) u))"
  shows "\<exists>k d html ucs. transport e k (manga_url s) = (d, Response 200 html)
           \<and> length ucs \<le> length (select_chapterlist e html)
           \<and> (\<forall>i<length ucs. urljoin e base_address (select_chapterlist e html ! i)
                                 = Inr (fst (ucs ! i)))
           \<and> available_chapters (snd (get_chapter_list e r s))
               = map (\<lambda>i. (int (Suc i), ucs ! i)) [0..<length ucs]"
  using get_chapter_list_all_fetched [OF assms(3,2,1)] .

lemma discovery_on_small_site:
  "(case get_chapter_list site_env 3 reader0 of
      (x, s) \<Rightarrow> x = None
        \<and> available_chapters s
            = [(1, (''http://www.mangareader.net/naruto/1'', 1)),
               (2, (''http://www.mangareader.net/naruto/2'', 1))])"
  by code_simp

subsection \<open>Which failures leave the operations\<close>







lemma save_image_frame:
  "save_image e image_url image_name s = (x, s')
     \<Longrightarrow> retry_after s' = retry_after s"
  using get_page_source_frame [of e image_url 3 s]
  by (auto simp: save_image_def write_file_def
           split: prod.splits sum.splits if_splits option.splits)






subsection \<open>URL validation: what is accepted\<close>

text \<open>
  \<open>validate_url\<close> accepts exactly the URLs on the source domain whose path is not empty
  and, without its first character and the slashes around the rest, holds no slash. A
  path made of slashes only passes.
\<close>

lemma split_on_nonempty: "split_on c s \<noteq> []"
  by (induction s) (auto split: list.splits)

lemma split_on_many: "1 < length (split_on c s) \<longleftrightarrow> c \<in> set s"
proof (induction s)
  case Nil
  then show ?case by simp
next
  case (Cons x xs)
  have "0 < length (split_on c xs)" using split_on_nonempty [of c xs] by simp
  with Cons show ?case by (auto split: list.splits)
qed

lemma netloc_base: "netloc (urlparse base_address) = ''www.mangareader.net''"
  by code_simp

lemma validate_url_iff:
  "validate_url url \<longleftrightarrow>
     netloc (urlparse url) = ''www.mangareader.net''
     \<and> path (urlparse url) \<noteq> []
     \<and> CHR ''/'' \<notin> set (strip_chr CHR ''/'' (drop 1 (path (urlparse url))))"
  using split_on_many [of "CHR ''/''" "strip_chr CHR ''/'' (drop 1 (path (urlparse url)))"]
  by (auto simp: validate_url_def Let_def netloc_base)

subsection \<open>Pacing across the whole crawl\<close>

text \<open>
  Only the fetcher touches the clock, the log and the next allowed time, so the log of an
  object built in a process that has sent nothing stays paced through discovery, the
  progress store, page and chapter download and the full crawl.
\<close>

lemma pace_inv_cong:
  "wait_time t = wait_time s \<Longrightarrow> requests t = requests s \<Longrightarrow> clock t = clock s
     \<Longrightarrow> next_request_time t = next_request_time s \<Longrightarrow> pace_inv t = pace_inv s"
  by (simp add: pace_inv_def)

lemma pace_inv_index [simp]: "pace_inv (s\<lparr>available_chapters := x\<rparr>) = pace_inv s"
  by (simp add: pace_inv_def)

lemma mkdir_pace: "mkdir s p = Inr s' \<Longrightarrow> pace_inv s' = pace_inv s"
  by (auto simp: mkdir_def pace_inv_def split: option.splits if_splits)

lemma chdir_pace: "chdir s p = Inr s' \<Longrightarrow> pace_inv s' = pace_inv s"
  by (auto simp: chdir_def pace_inv_def split: option.splits if_splits)

lemma write_file_pace: "write_file s p n = Inr s' \<Longrightarrow> pace_inv s' = pace_inv s"
  by (auto simp: write_file_def pace_inv_def split: option.splits if_splits)

lemma discovery_pace: "pace_inv s \<Longrightarrow> pace_inv (snd (get_chapter_list e r s))"
proof -
  assume p: "pace_inv s"
  have "pace_inv (snd (get_chapter_list e r s)) \<and> (False \<longrightarrow> fst (get_chapter_list e r s) = None)"
  proof (rule discovery_generic(1) [where I = pace_inv and N = False])
    fix s u res s'
    assume "pace_inv s" and "get_page_source e u 3 s = (res, s')"
    from get_page_source_pace [OF this]
    show "pace_inv s' \<and> (False \<longrightarrow> (\<exists>st src. res = Inr (st, src) \<and> (st \<longrightarrow> src \<noteq> None)))"
      by simp
  qed (simp_all add: p)
  then show ?thesis by simp
qed

lemma save_image_pace: "pace_inv s \<Longrightarrow> pace_inv (snd (save_image e u n s))"
proof -
  assume p: "pace_inv s"
  obtain res s1 where g: "get_page_source e u 3 s = (res, s1)"
    by (cases "get_page_source e u 3 s")
  from get_page_source_pace [OF p g] have "pace_inv s1" by simp
  then show ?thesis
    using g write_file_pace [of s1 n]
    by (auto simp: save_image_def split: sum.splits option.splits prod.splits)
qed

lemma get_chapter_page_pace:
  "pace_inv s \<Longrightarrow> pace_inv (snd (get_chapter_page e c p r s))"
proof (induction "nat r" arbitrary: r s)
  case 0
  then have nr: "\<not> 0 < r" by simp
  show ?case
    using "0.prems" nr save_image_pace get_page_source_pace
    by (subst get_chapter_page.simps)
       (auto simp: Let_def split: prod.splits option.splits sum.splits)
next
  case (Suc m)
  then have rr: "m = nat (r - 1)" by simp
  note ih = Suc.hyps(1) [OF rr]
  show ?case
    using Suc.prems ih save_image_pace get_page_source_pace
    by (subst get_chapter_page.simps)
       (auto simp: Let_def split: prod.splits option.splits sum.splits)
qed

lemma pages_loop_pace: "pace_inv s \<Longrightarrow> pace_inv (snd (pages_loop e c ps s))"
proof (induction ps arbitrary: s)
  case Nil
  then show ?case by simp
next
  case (Cons p ps)
  from get_chapter_page_pace [OF Cons.prems, of e c p 3] Cons.IH Cons.prems
  show ?case by (auto split: prod.splits option.splits)
qed

lemma get_chapter_pace: "pace_inv s \<Longrightarrow> pace_inv (snd (get_chapter e c r s))"
proof -
  assume p: "pace_inv s"
  obtain chapter_url n where dg: "dict_get (available_chapters s) c = (chapter_url, n)"
    by (cases "dict_get (available_chapters s) c")
  show ?thesis
  proof (cases "chapter_url = None \<or> chapter_url = Some []")
    case True
    with dg p show ?thesis by (auto simp: get_chapter_def)
  next
    case False
    then obtain u where u: "chapter_url = Some u" "u \<noteq> []" by auto
    let ?d = "''CH-'' @ format_0d 3 c"
    let ?r1 = "if \<not> path_exists s ?d then mkdir s ?d else Inr s"
    show ?thesis
    proof (cases ?r1)
      case (Inl x)
      with dg u p show ?thesis by (auto simp: get_chapter_def Let_def split: if_splits)
    next
      case (Inr s1)
      with p have p1: "pace_inv s1" by (auto simp: mkdir_pace split: if_splits)
      show ?thesis
      proof (cases "chdir s1 ?d")
        case (Inl x)
        with dg u p1 \<open>?r1 = Inr s1\<close> show ?thesis by (auto simp: get_chapter_def Let_def split: if_splits)
      next
        case (Inr s2)
        with p1 have p2: "pace_inv s2" by (simp add: chdir_pace)
        obtain x s3 where pl: "pages_loop e c [1..n] s2 = (x, s3)"
          by (cases "pages_loop e c [1..n] s2")
        with pages_loop_pace [OF p2, of e c "[1..n]"] have p3: "pace_inv s3" by simp
        show ?thesis
        proof (cases x)
          case (Some y)
          with dg u \<open>?r1 = Inr s1\<close> Inr pl p3 show ?thesis
            by (auto simp: get_chapter_def Let_def split: if_splits)
        next
          case None
          show ?thesis
          proof (cases "chdir s3 (target_dir s3)")
            case (Inl y)
            with dg u \<open>?r1 = Inr s1\<close> Inr pl p3 None show ?thesis
              by (auto simp: get_chapter_def Let_def split: if_splits)
          next
            case i4: (Inr s4)
            with p3 have "pace_inv s4" by (simp add: chdir_pace)
            with dg u \<open>?r1 = Inr s1\<close> Inr pl None i4 show ?thesis
              by (auto simp: get_chapter_def Let_def split: if_splits)
          qed
        qed
      qed
    qed
  qed
qed

lemma chapters_download_pace: "pace_inv s \<Longrightarrow> pace_inv (snd (chapters_download e cs s))"
proof (induction cs arbitrary: s)
  case Nil
  then show ?case by simp
next
  case (Cons c cs)
  from get_chapter_pace [OF Cons.prems, of e c 3] Cons.IH
  show ?case by (auto split: prod.splits option.splits)
qed

lemma save_chapter_list_pace: "pace_inv s \<Longrightarrow> pace_inv (snd (save_chapter_list s))"
  by (auto simp: save_chapter_list_def Let_def write_file_pace split: sum.splits)

lemma load_chapter_list_pace: "pace_inv s \<Longrightarrow> pace_inv (snd (load_chapter_list s))"
  by (auto simp: load_chapter_list_def Let_def split: sum.splits)

lemma grab_all_chapters_pace: "pace_inv s \<Longrightarrow> pace_inv (snd (grab_all_chapters e s))"
proof -
  assume p: "pace_inv s"
  obtain r1 s1 where l: "load_chapter_list s = (r1, s1)" by (cases "load_chapter_list s")
  with load_chapter_list_pace [OF p] have p1: "pace_inv s1" by simp
  obtain x2 s2 where d: "get_chapter_list e 3 s1 = (x2, s2)" by (cases "get_chapter_list e 3 s1")
  with discovery_pace [OF p1, of e 3] have p2: "pace_inv s2" by simp
  obtain x3 s3 where sv: "save_chapter_list s2 = (x3, s3)" by (cases "save_chapter_list s2")
  with save_chapter_list_pace [OF p2] have p3: "pace_inv s3" by simp
  show ?thesis
    using l d sv p1 p2 p3 chapters_download_pace
    by (auto simp: grab_all_chapters_def split: sum.splits option.splits prod.splits if_splits)
qed

lemma init_pace:
  "init url_arg dir_arg wait_arg time_out_arg retries retry_after_arg w = Inr s
     \<Longrightarrow> requests w = [] \<Longrightarrow> pace_inv s"
proof -
  have mf: "\<And>cs w w'. make_folders cs w = Inr w' \<Longrightarrow> requests w' = requests w"
  proof -
    fix cs show "\<And>w w'. make_folders cs w = Inr w' \<Longrightarrow> requests w' = requests w"
    proof (induction cs)
      case Nil
      then show ?case by simp
    next
      case (Cons c cs)
      from Cons.prems Cons.IH show ?case
        by (auto simp: mkdir_def chdir_def split: sum.splits option.splits if_splits)
    qed
  qed
  assume "init url_arg dir_arg wait_arg time_out_arg retries retry_after_arg w = Inr s"
    and "requests w = []"
  then show ?thesis
    by (auto simp: init_def Let_def make_dir_tree_def chdir_def pace_inv_def
             split: sum.splits option.splits if_splits dest!: mf)
qed

end
